theory Spec2Isabelle
  imports Main
begin

section \<open>ShuffleChannels executor of the CPU plugin\<close>

text \<open>
  The development embeds \<^verbatim>\<open>mkldnn_shuffle_channels_node.cpp\<close>: the attribute bundle,
  the constructor of \<^verbatim>\<open>ShuffleChannelsExecutor\<close> that derives the permutation parameters,
  and \<^verbatim>\<open>exec\<close>.  Every throw of the source and every access the C++ leaves undefined
  (a vector index outside the vector, \<^verbatim>\<open>back()\<close> of an empty vector, a division by
  zero) is a value of the type \<open>error\<close>, so that "the constructor returns a plan" is a
  statement of its own.
\<close>

subsection \<open>Data\<close>

text \<open>
  \<^verbatim>\<open>LayoutType\<close> is declared outside the translated file.  The constructor tests the tag
  against four enumerators and throws otherwise; \<open>unsupported_layout\<close> stands for every
  tag value that is none of the four.
\<close>

datatype LayoutType = nspc | ncsp | nCsp8c | nCsp16c | unsupported_layout

text \<open>
  The fields of \<^verbatim>\<open>ShuffleChannelsAttributes\<close>.  The ranks and the axis are \<^verbatim>\<open>int\<close> in
  the source (they are compared with and assigned to \<^verbatim>\<open>int\<close> counters); group, element
  size and extents are \<^verbatim>\<open>size_t\<close>, modelled as naturals with the wrap-around of every
  multiplication written out (\<open>size_t_mul\<close>).  The \<^verbatim>\<open>int\<close> values are mathematical
  integers: in a run on a bundle whose axis lies below its rank no counter exceeds the rank
  by more than 2.
\<close>

record ShuffleChannelsAttributes =
  layoutType :: LayoutType
  dataRank :: int
  axis :: int
  spatialRank :: int
  group :: nat
  dataSize :: nat
  srcDims :: "nat list"
  srcBlockedDims :: "nat list"

record PermuteParams =
  src_block_dims :: "nat list"
  dst_block_dims :: "nat list"
  src_block_order :: "nat list"
  dst_block_order :: "nat list"
  order :: "nat list"
  data_size :: nat

text \<open>
  The failures: the two throws of the source (an unsupported layout tag in the constructor,
  no kernel in \<^verbatim>\<open>exec\<close>), the exception of \<^verbatim>\<open>resize\<close>, the two kinds of undefined
  behaviour (an access outside a vector, a division by zero), and the precondition of the
  permute kernel.
\<close>

datatype error =
    UnsupportedLayout
  | LengthError
  | OutOfBounds
  | DivisionByZero
  | KernelNotCompiled
  | PreconditionError

subsection \<open>Sequencing, checked vector access, loops\<close>

definition chain :: "error + 'a \<Rightarrow> ('a \<Rightarrow> error + 'b) \<Rightarrow> error + 'b" where
  "chain m f = (case m of Inl e \<Rightarrow> Inl e | Inr x \<Rightarrow> f x)"

definition size_t_mul :: "nat \<Rightarrow> nat \<Rightarrow> nat" where
  "size_t_mul a b = (a * b) mod 2 ^ 64"

text \<open>
  The conversion of an \<^verbatim>\<open>int\<close> to \<^verbatim>\<open>size_t\<close>: exact on a value that is not negative,
  \<open>2 ^ 64\<close> added to a negative one.
\<close>

definition size_t_of_int :: "int \<Rightarrow> nat" where
  "size_t_of_int i = (if 0 \<le> i then nat i else nat (i + 2 ^ 64))"

definition size_t_div :: "nat \<Rightarrow> nat \<Rightarrow> error + nat" where
  "size_t_div a b = (if b = 0 then Inl DivisionByZero else Inr (a div b))"

text \<open>\<^verbatim>\<open>v[i]\<close> read and written; an index outside the vector is undefined in C++.\<close>

definition at :: "'a list \<Rightarrow> int \<Rightarrow> error + 'a" where
  "at v i = (if 0 \<le> i \<and> i < int (length v) then Inr (v ! nat i) else Inl OutOfBounds)"

definition assign :: "'a list \<Rightarrow> int \<Rightarrow> 'a \<Rightarrow> error + 'a list" where
  "assign v i x = (if 0 \<le> i \<and> i < int (length v) then Inr (v[nat i := x]) else Inl OutOfBounds)"

definition vec_back :: "'a list \<Rightarrow> error + 'a" where
  "vec_back v = (if v = [] then Inl OutOfBounds else Inr (last v))"

text \<open>
  \<^verbatim>\<open>v.resize(n)\<close> on an empty vector of \<^verbatim>\<open>size_t\<close>; the \<^verbatim>\<open>int\<close> argument is converted to
  \<^verbatim>\<open>size_t\<close>, so a negative one asks for more than \<^verbatim>\<open>max_size()\<close> and throws.
\<close>

definition resize :: "int \<Rightarrow> error + nat list" where
  "resize n = (if n < 0 then Inl LengthError else Inr (replicate (nat n) 0))"

text \<open>\<^verbatim>\<open>for (int i = from; i < to; i++) body\<close> over a state.\<close>

function for_loop :: "int \<Rightarrow> int \<Rightarrow> (int \<Rightarrow> 's \<Rightarrow> error + 's) \<Rightarrow> 's \<Rightarrow> error + 's" where
  "for_loop i n body s =
     (if i < n then (case body i s of Inl e \<Rightarrow> Inl e | Inr s' \<Rightarrow> for_loop (i + 1) n body s')
      else Inr s)"
  by pat_completeness auto
termination
  by (relation "measure (\<lambda>(i, n, body, s). nat (n - i))") auto

declare for_loop.simps [simp del]

definition one_of :: "'a \<Rightarrow> 'a list \<Rightarrow> bool" where
  "one_of x xs = (x \<in> set xs)"

subsection \<open>The constructor of the executor\<close>

definition set_order :: "int \<Rightarrow> nat \<Rightarrow> PermuteParams \<Rightarrow> error + PermuteParams" where
  "set_order i x params = chain (assign (order params) i x) (\<lambda>v. Inr (params\<lparr>order := v\<rparr>))"

definition set_src_block_dims :: "int \<Rightarrow> nat \<Rightarrow> PermuteParams \<Rightarrow> error + PermuteParams" where
  "set_src_block_dims i x params =
     chain (assign (src_block_dims params) i x) (\<lambda>v. Inr (params\<lparr>src_block_dims := v\<rparr>))"

definition set_dst_block_dims :: "int \<Rightarrow> nat \<Rightarrow> PermuteParams \<Rightarrow> error + PermuteParams" where
  "set_dst_block_dims i x params =
     chain (assign (dst_block_dims params) i x) (\<lambda>v. Inr (params\<lparr>dst_block_dims := v\<rparr>))"

text \<open>The lambda \<^verbatim>\<open>decomposeAndTranpose\<close> (the name as the source spells it).\<close>

definition decomposeAndTranpose ::
  "ShuffleChannelsAttributes \<Rightarrow> nat \<Rightarrow> int \<Rightarrow> PermuteParams \<Rightarrow> error + PermuteParams" where
  "decomposeAndTranpose attrs groupSize ax params =
     chain (set_src_block_dims ax (group attrs) params) (\<lambda>params.
     chain (set_src_block_dims (ax + 1) groupSize params) (\<lambda>params.
     chain (set_order ax (size_t_of_int (ax + 1)) params) (\<lambda>params.
     set_order (ax + 1) (size_t_of_int ax) params)))"

text \<open>\<^verbatim>\<open>for (int i = from; i < to; i++) spatialShapeSize *= srcDims[i];\<close>\<close>

definition multiply_dims :: "nat list \<Rightarrow> int \<Rightarrow> int \<Rightarrow> nat \<Rightarrow> error + nat" where
  "multiply_dims dims from to spatialShapeSize =
     for_loop from to (\<lambda>i s. chain (at dims i) (\<lambda>d. Inr (size_t_mul s d))) spatialShapeSize"

definition channelDim :: int where
  "channelDim = 1"

text \<open>The branch \<^verbatim>\<open>if (isBlocked)\<close>.\<close>

definition blocked_branch ::
  "ShuffleChannelsAttributes \<Rightarrow> nat \<Rightarrow> nat \<Rightarrow> PermuteParams \<Rightarrow> error + PermuteParams" where
  "blocked_branch attrs groupSize spatialShapeSize params =
     (let batchRank = axis attrs in
      chain (vec_back (srcBlockedDims attrs)) (\<lambda>blkSize.
      chain (at (srcBlockedDims attrs) 1) (\<lambda>CB.
      if axis attrs > channelDim then
        chain (for_loop 0 batchRank (\<lambda>i params.
                 chain (set_order i (size_t_of_int i) params) (\<lambda>params.
                 chain (at (srcBlockedDims attrs) i) (\<lambda>d.
                 set_src_block_dims i d params))) params) (\<lambda>params.
        chain (decomposeAndTranpose attrs groupSize batchRank params) (\<lambda>params.
        chain (set_order (batchRank + 2) (size_t_of_int (batchRank + 2)) params) (\<lambda>params.
        set_src_block_dims (batchRank + 2) (size_t_mul spatialShapeSize blkSize) params)))
      else
        chain (decomposeAndTranpose attrs groupSize 0 params) (\<lambda>params.
        chain (multiply_dims (srcDims attrs) 2 (dataRank attrs) (size_t_mul CB blkSize))
          (\<lambda>spatialShapeSize.
        chain (set_order 2 2 params) (\<lambda>params.
        set_src_block_dims 2 spatialShapeSize params))))))"

text \<open>The branch \<^verbatim>\<open>else if (isChannelsLast)\<close>.\<close>

definition channels_last_branch ::
  "ShuffleChannelsAttributes \<Rightarrow> int \<Rightarrow> nat \<Rightarrow> nat \<Rightarrow> PermuteParams \<Rightarrow> error + PermuteParams" where
  "channels_last_branch attrs reshapedRank groupSize spatialShapeSize params =
     (let batchRank = axis attrs in
      if axis attrs = channelDim then
        chain (set_order 0 0 params) (\<lambda>params.
        chain (at (srcDims attrs) 0) (\<lambda>d.
        chain (set_src_block_dims 0 d params) (\<lambda>params.
        chain (set_order 1 1 params) (\<lambda>params.
        chain (set_src_block_dims 1 spatialShapeSize params) (\<lambda>params.
        decomposeAndTranpose attrs groupSize 2 params)))))
      else if axis attrs > channelDim then
        chain (for_loop 0 batchRank (\<lambda>i params.
                 if i = 0 then
                   chain (set_order i (size_t_of_int i) params) (\<lambda>params.
                   chain (at (srcDims attrs) i) (\<lambda>d.
                   set_src_block_dims i d params))
                 else if i = 1 then
                   chain (set_order (reshapedRank - 1) (size_t_of_int (reshapedRank - 1)) params)
                     (\<lambda>params.
                   chain (at (order params) (reshapedRank - 1)) (\<lambda>j.
                   chain (at (srcDims attrs) i) (\<lambda>d.
                   set_src_block_dims (int j) d params)))
                 else if i > 1 then
                   chain (set_order (i - 1) (size_t_of_int (i - 1)) params) (\<lambda>params.
                   chain (at (srcDims attrs) i) (\<lambda>d.
                   set_src_block_dims (i - 1) d params))
                 else Inr params) params) (\<lambda>params.
        chain (decomposeAndTranpose attrs groupSize (batchRank - 1) params) (\<lambda>params.
        if spatialRank attrs \<noteq> 0 then
          chain (set_order (batchRank + 1) (size_t_of_int (batchRank + 1)) params) (\<lambda>params.
          set_src_block_dims (batchRank + 1) spatialShapeSize params)
        else Inr params))
      else
        chain (decomposeAndTranpose attrs groupSize 0 params) (\<lambda>params.
        chain (set_order 2 2 params) (\<lambda>params.
        set_src_block_dims 2 spatialShapeSize params)))"

text \<open>The last branch (the planar layout \<^verbatim>\<open>ncsp\<close>).\<close>

definition planar_branch ::
  "ShuffleChannelsAttributes \<Rightarrow> nat \<Rightarrow> nat \<Rightarrow> PermuteParams \<Rightarrow> error + PermuteParams" where
  "planar_branch attrs groupSize spatialShapeSize params =
     (let batchRank = axis attrs in
      chain (for_loop 0 batchRank (\<lambda>i params.
               chain (at (srcDims attrs) i) (\<lambda>d.
               chain (set_src_block_dims i d params) (\<lambda>params.
               set_order i (size_t_of_int i) params))) params) (\<lambda>params.
      chain (decomposeAndTranpose attrs groupSize batchRank params) (\<lambda>params.
      if spatialRank attrs \<noteq> 0 then
        chain (set_order (batchRank + 2) (size_t_of_int (batchRank + 2)) params) (\<lambda>params.
        set_src_block_dims (batchRank + 2) spatialShapeSize params)
      else Inr params)))"

text \<open>\<^verbatim>\<open>dst_block_dims[i] = src_block_dims[order[i]]\<close> for every \<open>i\<close> below the rank.\<close>

definition fill_dst_block_dims :: "int \<Rightarrow> PermuteParams \<Rightarrow> error + PermuteParams" where
  "fill_dst_block_dims reshapedRank params =
     for_loop 0 reshapedRank (\<lambda>i params.
       chain (at (order params) i) (\<lambda>j.
       chain (at (src_block_dims params) (int j)) (\<lambda>d.
       set_dst_block_dims i d params))) params"

definition reshapedRank :: "ShuffleChannelsAttributes \<Rightarrow> int" where
  "reshapedRank attrs =
     axis attrs + 2 + (if spatialRank attrs \<noteq> 0 then 1 else 0)
       + (if one_of (layoutType attrs) [nCsp16c, nCsp8c] \<and> spatialRank attrs = 0 then 1 else 0)"

text \<open>
  The body of the constructor up to the parameters handed to \<^verbatim>\<open>PermuteKernel\<close>
  (the plan).
\<close>

definition ShuffleChannelsExecutor_params ::
  "ShuffleChannelsAttributes \<Rightarrow> error + PermuteParams" where
  "ShuffleChannelsExecutor_params attrs =
     (if \<not> one_of (layoutType attrs) [nCsp16c, nCsp8c, nspc, ncsp] then Inl UnsupportedLayout
      else
        let isBlocked = one_of (layoutType attrs) [nCsp16c, nCsp8c];
            isChannelsLast = (layoutType attrs = nspc);
            batchRank = axis attrs
        in
        chain (resize (reshapedRank attrs)) (\<lambda>zeros.
        let params = \<lparr>src_block_dims = zeros, dst_block_dims = zeros,
                      src_block_order = zeros, dst_block_order = zeros,
                      order = zeros, data_size = dataSize attrs\<rparr> in
        chain (at (srcDims attrs) (axis attrs)) (\<lambda>extent.
        chain (size_t_div extent (group attrs)) (\<lambda>groupSize.
        chain (if spatialRank attrs \<noteq> 0
               then multiply_dims (srcDims attrs) (batchRank + 1) (dataRank attrs) 1
               else Inr 1) (\<lambda>spatialShapeSize.
        chain (if isBlocked then blocked_branch attrs groupSize spatialShapeSize params
               else if isChannelsLast
               then channels_last_branch attrs (reshapedRank attrs) groupSize spatialShapeSize params
               else planar_branch attrs groupSize spatialShapeSize params) (\<lambda>params.
        fill_dst_block_dims (reshapedRank attrs)
          (params\<lparr>src_block_order := [0..<length (src_block_order params)],
                  dst_block_order := [0..<length (dst_block_order params)]\<rparr>)))))))"

text \<open>
  The executor object: its only member is the kernel pointer, null until the constructor
  has stored a kernel.  \<^verbatim>\<open>PermuteKernel\<close> is declared and defined outside the translated
  file; here a kernel is the parameters it was constructed from.
\<close>

datatype PermuteKernel = PermuteKernel (jcp: PermuteParams)

record Executor =
  permuteKernel :: "PermuteKernel option"

definition ShuffleChannelsExecutor :: "ShuffleChannelsAttributes \<Rightarrow> error + Executor" where
  "ShuffleChannelsExecutor attrs =
     chain (ShuffleChannelsExecutor_params attrs) (\<lambda>params.
     Inr \<lparr>permuteKernel = Some (PermuteKernel params)\<rparr>)"

subsection \<open>The node: how the attributes are filled in\<close>

record Node =
  attrs :: ShuffleChannelsAttributes
  supportDynamicBatch :: bool

text \<open>
  The constructor of the node, lines 75 to 82: group, axis and rank are read from the
  operation and the input shape, a negative axis is normalised.  \<open>attrs0\<close> is the
  attribute member as its default initialisers leave it.
\<close>

definition MKLDNNShuffleChannelsNode ::
  "ShuffleChannelsAttributes \<Rightarrow> int \<Rightarrow> int \<Rightarrow> int \<Rightarrow> Node" where
  "MKLDNNShuffleChannelsNode attrs0 get_group get_axis rank =
     (let a = attrs0\<lparr>group := size_t_of_int get_group\<rparr>;
          a = a\<lparr>axis := get_axis\<rparr>;
          a = a\<lparr>dataRank := rank\<rparr>;
          a = (if axis a < 0 then a\<lparr>axis := axis a + dataRank a\<rparr> else a)
      in \<lparr>attrs = a, supportDynamicBatch = (axis a \<noteq> 0)\<rparr>)"

text \<open>
  \<^verbatim>\<open>createPrimitive\<close>, lines 137 to 141; the memory descriptor is given by the size of its
  precision and by its answer to \<^verbatim>\<open>hasLayoutType\<close>.
\<close>

definition createPrimitive :: "nat \<Rightarrow> (LayoutType \<Rightarrow> bool) \<Rightarrow> Node \<Rightarrow> Node" where
  "createPrimitive precision_size hasLayoutType node =
     (let a = attrs node;
          a = a\<lparr>spatialRank := dataRank a - axis a - 1\<rparr>;
          a = a\<lparr>dataSize := precision_size\<rparr>;
          a = a\<lparr>layoutType :=
                 (if hasLayoutType nCsp16c then nCsp16c
                  else if hasLayoutType nCsp8c then nCsp8c
                  else if hasLayoutType nspc then nspc else ncsp)\<rparr>
      in node\<lparr>attrs := a\<rparr>)"

text \<open>
  \<^verbatim>\<open>prepareParams\<close>: the extents of the source memory are stored and the executor is
  built from the attributes (the runtime cache between the two is outside the
  translated file and is left out).
\<close>

definition prepareParams :: "nat list \<Rightarrow> nat list \<Rightarrow> Node \<Rightarrow> error + Executor" where
  "prepareParams getStaticDims getBlockDims node =
     (let a = attrs node;
          a = a\<lparr>srcDims := getStaticDims\<rparr>;
          a = a\<lparr>srcBlockedDims := getBlockDims\<rparr>
      in ShuffleChannelsExecutor a)"

subsection \<open>Executing a plan\<close>

text \<open>
  Row-major strides of an array with the given extents, and the multi-index of a linear
  position in it.
\<close>

fun strides :: "nat list \<Rightarrow> nat list" where
  "strides [] = []"
| "strides (n # ns) = prod_list ns # strides ns"

fun multi_index :: "nat list \<Rightarrow> nat \<Rightarrow> nat list" where
  "multi_index [] d = []"
| "multi_index (n # ns) d = (d div prod_list ns) mod n # multi_index ns d"

text \<open>
  Modelled from the spec: \<^verbatim>\<open>PermuteKernel::execute\<close>, whose source file is not part of
  the translated sources.  The specification of the executor says: for every multi-index
  \<open>i\<close> over the destination extents, copy \<open>elementSize\<close> bytes from the source position
  given by the multi-index \<open>j\<close> with \<open>j[order[k]] = i[k]\<close> to the destination position \<open>i\<close>;
  the source buffer must hold at least \<open>elementSize\<close> times the product of the source
  extents; a batch override that is not negative replaces the extent at axis 0, a negative
  one leaves the plan's own extent.

  \<open>src_position\<close> is the linear source position of the destination position \<open>d\<close>
  (both counted in elements): the sum of \<open>i[k]\<close> times the source stride of axis
  \<open>order[k]\<close>.  \<open>src_bytes\<close> lists, for every byte of the destination in turn, the index
  of the source byte copied there.  A plan whose order does not index the source extents,
  a source buffer that is too short and a read outside the source buffer are failures of
  the precondition; the result is the destination buffer.
\<close>

definition src_position :: "PermuteParams \<Rightarrow> nat list \<Rightarrow> nat \<Rightarrow> nat" where
  "src_position p dst_dims d =
     sum_list (map2 (\<lambda>i k. i * (strides (src_block_dims p) ! k)) (multi_index dst_dims d) (order p))"

definition src_bytes :: "PermuteParams \<Rightarrow> nat list \<Rightarrow> nat list" where
  "src_bytes p dst_dims =
     map (\<lambda>b. src_position p dst_dims (b div data_size p) * data_size p + b mod data_size p)
       [0..<data_size p * prod_list dst_dims]"

definition valid_plan :: "PermuteParams \<Rightarrow> nat list \<Rightarrow> bool" where
  "valid_plan p dst_dims \<longleftrightarrow>
     length (order p) = length dst_dims \<and>
     list_all (\<lambda>k. k < length (src_block_dims p)) (order p)"

definition permute :: "PermuteParams \<Rightarrow> nat list \<Rightarrow> nat list \<Rightarrow> 'a list \<Rightarrow> error + 'a list" where
  "permute p src_dims dst_dims src =
     (if \<not> valid_plan p dst_dims then Inl PreconditionError
      else if length src < data_size p * prod_list src_dims then Inl PreconditionError
      else if \<not> list_all (\<lambda>i. i < length src) (src_bytes p dst_dims) then Inl PreconditionError
      else Inr (map ((!) src) (src_bytes p dst_dims)))"

definition execute :: "PermuteKernel \<Rightarrow> 'a list \<Rightarrow> error + 'a list" where
  "execute k src = permute (jcp k) (src_block_dims (jcp k)) (dst_block_dims (jcp k)) src"

definition execute_mb :: "PermuteKernel \<Rightarrow> 'a list \<Rightarrow> int \<Rightarrow> error + 'a list" where
  "execute_mb k src mb =
     (if mb < 0 then execute k src
      else permute (jcp k) ((src_block_dims (jcp k))[0 := nat mb])
             ((dst_block_dims (jcp k))[0 := nat mb]) src)"

text \<open>\<^verbatim>\<open>ShuffleChannelsExecutor::exec\<close>, lines 277 to 285; the result is the destination buffer.\<close>

definition exec :: "Executor \<Rightarrow> 'a list \<Rightarrow> int \<Rightarrow> error + 'a list" where
  "exec e srcData MB =
     (case permuteKernel e of
        None \<Rightarrow> Inl KernelNotCompiled
      | Some k \<Rightarrow> if MB > 0 then execute_mb k srcData MB else execute k srcData)"

subsection \<open>Accepted attribute bundles\<close>

text \<open>
  A bundle as the node fills it in, with what the claims call accepted: one of the four
  layout tags, \<open>0 \<le> axis < rank\<close>, a positive group that divides the extent at the axis.
  The rank is the number of extents, the spatial rank is derived as in
  \<^verbatim>\<open>createPrimitive\<close>, and the descriptor of a blocked layout has one block extent more
  than the shape has axes (the inner block of the channels).
\<close>

definition isBlocked :: "ShuffleChannelsAttributes \<Rightarrow> bool" where
  "isBlocked a = one_of (layoutType a) [nCsp16c, nCsp8c]"

definition well_formed :: "ShuffleChannelsAttributes \<Rightarrow> bool" where
  "well_formed a \<longleftrightarrow>
     one_of (layoutType a) [nCsp16c, nCsp8c, nspc, ncsp] \<and>
     dataRank a = int (length (srcDims a)) \<and>
     0 \<le> axis a \<and> axis a < dataRank a \<and>
     spatialRank a = dataRank a - axis a - 1 \<and>
     0 < group a \<and>
     (isBlocked a \<longrightarrow> length (srcBlockedDims a) = length (srcDims a) + 1)"

definition accepted :: "ShuffleChannelsAttributes \<Rightarrow> bool" where
  "accepted a \<longleftrightarrow> well_formed a \<and> group a dvd srcDims a ! nat (axis a)"

text \<open>
  The cases the constructor is written for.  The node offers the blocked layouts only when
  the axis is not 1 (\<^verbatim>\<open>initSupportedPrimitiveDescriptors\<close>).  The two channels-last
  branches for the axes 0 and 1 write a position for the folded spatial axes, so at least
  one spatial axis has to remain.
\<close>

definition offered :: "ShuffleChannelsAttributes \<Rightarrow> bool" where
  "offered a \<longleftrightarrow>
     (isBlocked a \<longrightarrow> axis a \<noteq> 1) \<and>
     (layoutType a = nspc \<and> axis a \<le> 1 \<longrightarrow> spatialRank a \<noteq> 0)"

text \<open>The position in the reshaped tensor at which the shuffled axis is decomposed.\<close>

definition decomposed_at :: "ShuffleChannelsAttributes \<Rightarrow> nat" where
  "decomposed_at a =
     (if isBlocked a then (if axis a > channelDim then nat (axis a) else 0)
      else if layoutType a = nspc
      then (if axis a = channelDim then 2 else if axis a > channelDim then nat (axis a) - 1 else 0)
      else nat (axis a))"

subsection \<open>Auxiliary notions of the proofs\<close>

text \<open>Every vector of the parameters has \<open>n\<close> entries and the element size is \<open>es\<close>.\<close>

definition shaped :: "nat \<Rightarrow> nat \<Rightarrow> PermuteParams \<Rightarrow> bool" where
  "shaped n es p \<longleftrightarrow>
     length (order p) = n \<and> length (src_block_dims p) = n \<and> length (dst_block_dims p) = n \<and>
     length (src_block_order p) = n \<and> length (dst_block_order p) = n \<and> data_size p = es"

text \<open>Two parameter bundles that differ at most in the destination extents.\<close>

definition same_but_dst :: "PermuteParams \<Rightarrow> PermuteParams \<Rightarrow> bool" where
  "same_but_dst p q \<longleftrightarrow>
     order q = order p \<and> src_block_dims q = src_block_dims p \<and>
     src_block_order q = src_block_order p \<and> dst_block_order q = dst_block_order p \<and>
     data_size q = data_size p \<and> length (dst_block_dims q) = length (dst_block_dims p)"

text \<open>The parameters right after the five \<^verbatim>\<open>resize\<close> calls.\<close>

definition zero_params :: "ShuffleChannelsAttributes \<Rightarrow> PermuteParams" where
  "zero_params a =
     \<lparr>src_block_dims = replicate (nat (reshapedRank a)) 0,
      dst_block_dims = replicate (nat (reshapedRank a)) 0,
      src_block_order = replicate (nat (reshapedRank a)) 0,
      dst_block_order = replicate (nat (reshapedRank a)) 0,
      order = replicate (nat (reshapedRank a)) 0, data_size = dataSize a\<rparr>"

text \<open>What a plan holds at every position: the order and the source extents as functions.\<close>

definition holds :: "PermuteParams \<Rightarrow> nat \<Rightarrow> nat \<Rightarrow> (nat \<Rightarrow> nat) \<Rightarrow> (nat \<Rightarrow> nat) \<Rightarrow> bool" where
  "holds p n es fo fs \<longleftrightarrow>
     shaped n es p \<and> (\<forall>k < n. order p ! k = fo k \<and> src_block_dims p ! k = fs k)"

text \<open>The identity order with the two positions \<open>d\<close> and \<open>d + 1\<close> exchanged.\<close>

definition swap_at :: "nat \<Rightarrow> nat \<Rightarrow> nat" where
  "swap_at d k = (if k = d then d + 1 else if k = d + 1 then d else k)"

text \<open>The extents the constructor computes, in closed form.\<close>

definition groupSize :: "ShuffleChannelsAttributes \<Rightarrow> nat" where
  "groupSize a = srcDims a ! nat (axis a) div group a"

definition spatialShapeSize :: "ShuffleChannelsAttributes \<Rightarrow> nat" where
  "spatialShapeSize a = fold (\<lambda>d s. size_t_mul s d) (drop (nat (axis a) + 1) (srcDims a)) 1"

definition src_extent :: "ShuffleChannelsAttributes \<Rightarrow> nat \<Rightarrow> nat" where
  "src_extent a k =
     (if isBlocked a then
        (if axis a > channelDim then
           (if k < nat (axis a) then srcBlockedDims a ! k
            else if k = nat (axis a) then group a
            else if k = nat (axis a) + 1 then groupSize a
            else size_t_mul (spatialShapeSize a) (last (srcBlockedDims a)))
         else
           (if k = 0 then group a else if k = 1 then groupSize a
            else fold (\<lambda>d s. size_t_mul s d) (drop 2 (srcDims a))
                   (size_t_mul (srcBlockedDims a ! 1) (last (srcBlockedDims a)))))
      else if layoutType a = nspc then
        (if axis a = channelDim then
           (if k = 0 then srcDims a ! 0 else if k = 1 then spatialShapeSize a
            else if k = 2 then group a else groupSize a)
         else if axis a > channelDim then
           (if k = 0 then srcDims a ! 0
            else if k < nat (axis a) - 1 then srcDims a ! (k + 1)
            else if k = nat (axis a) - 1 then group a
            else if k = nat (axis a) then groupSize a
            else if k = nat (reshapedRank a) - 1 then srcDims a ! 1
            else spatialShapeSize a)
         else
           (if k = 0 then group a else if k = 1 then groupSize a else spatialShapeSize a))
      else
        (if k < nat (axis a) then srcDims a ! k
         else if k = nat (axis a) then group a
         else if k = nat (axis a) + 1 then groupSize a
         else spatialShapeSize a))"

subsection \<open>Concrete bundles\<close>

text \<open>
  Planar, shape \<open>[1, 4, 2, 2]\<close>, axis 1, group 2, four bytes per element, and the plan the
  constructor derives from it.
\<close>

definition planar_1422 :: ShuffleChannelsAttributes where
  "planar_1422 = \<lparr>layoutType = ncsp, dataRank = 4, axis = 1, spatialRank = 2, group = 2,
     dataSize = 4, srcDims = [1, 4, 2, 2], srcBlockedDims = [1, 4, 2, 2]\<rparr>"

definition planar_1422_plan :: PermuteParams where
  "planar_1422_plan = \<lparr>src_block_dims = [1, 2, 2, 4], dst_block_dims = [1, 2, 2, 4],
     src_block_order = [0, 1, 2, 3], dst_block_order = [0, 1, 2, 3],
     order = [0, 2, 1, 3], data_size = 4\<rparr>"

text \<open>Blocked by 8, shape \<open>[1, 16, 2, 2]\<close>, shuffled along the channel axis 1.\<close>

definition blocked8_axis_1 :: ShuffleChannelsAttributes where
  "blocked8_axis_1 = \<lparr>layoutType = nCsp8c, dataRank = 4, axis = 1, spatialRank = 2, group = 2,
     dataSize = 4, srcDims = [1, 16, 2, 2], srcBlockedDims = [1, 2, 2, 2, 8]\<rparr>"

text \<open>
  Planar, shape \<open>[1, 3, 2, 2]\<close>, axis 1, group 2: the group does not divide the extent at
  the axis.
\<close>

definition planar_nondivisible :: ShuffleChannelsAttributes where
  "planar_nondivisible = \<lparr>layoutType = ncsp, dataRank = 4, axis = 1, spatialRank = 2, group = 2,
     dataSize = 4, srcDims = [1, 3, 2, 2], srcBlockedDims = [1, 3, 2, 2]\<rparr>"

text \<open>A layout blocked by 8 shuffled along its last axis: no spatial axis remains.\<close>

definition blocked8_last_axis :: ShuffleChannelsAttributes where
  "blocked8_last_axis = \<lparr>layoutType = nCsp8c, dataRank = 4, axis = 3, spatialRank = 0, group = 2,
     dataSize = 4, srcDims = [1, 16, 2, 4], srcBlockedDims = [1, 2, 2, 4, 8]\<rparr>"

definition blocked8_last_axis_plan :: PermuteParams where
  "blocked8_last_axis_plan = \<lparr>src_block_dims = [1, 2, 2, 2, 2, 8],
     dst_block_dims = [1, 2, 2, 2, 2, 8],
     src_block_order = [0, 1, 2, 3, 4, 5], dst_block_order = [0, 1, 2, 3, 4, 5],
     order = [0, 1, 2, 4, 3, 5], data_size = 4\<rparr>"

text \<open>Channels last, rank 5, shuffled along axis 3.\<close>

definition channels_last_spatial :: ShuffleChannelsAttributes where
  "channels_last_spatial = \<lparr>layoutType = nspc, dataRank = 5, axis = 3, spatialRank = 1, group = 2,
     dataSize = 1, srcDims = [1, 16, 2, 4, 3], srcBlockedDims = [1, 2, 4, 3, 16]\<rparr>"

definition channels_last_spatial_plan :: PermuteParams where
  "channels_last_spatial_plan = \<lparr>src_block_dims = [1, 2, 2, 2, 3, 16],
     dst_block_dims = [1, 2, 2, 2, 3, 16],
     src_block_order = [0, 1, 2, 3, 4, 5], dst_block_order = [0, 1, 2, 3, 4, 5],
     order = [0, 1, 3, 2, 4, 5], data_size = 1\<rparr>"

text \<open>The executor object the constructor returns for \<open>planar_1422\<close>.\<close>

definition planar_1422_executor :: Executor where
  "planar_1422_executor = \<lparr>permuteKernel = Some (PermuteKernel planar_1422_plan)\<rparr>"

text \<open>
  The source position of a swapped plan, as a function of the two decomposed extents, the
  size of the prefix and the size of the trailing axis.
\<close>

definition swapped_position :: "nat \<Rightarrow> nat \<Rightarrow> nat \<Rightarrow> nat \<Rightarrow> nat \<Rightarrow> nat" where
  "swapped_position P x y T d =
     (d div (y * x * T)) mod P * (x * y * T)
     + (d div T) mod x * (y * T)
     + (d div (x * T)) mod y * T
     + d mod T"

text \<open>
  The inverse configuration of a bundle: the same shape and axis, the group replaced by
  the group size.
\<close>

definition inverse_configuration :: "ShuffleChannelsAttributes \<Rightarrow> ShuffleChannelsAttributes" where
  "inverse_configuration a = a\<lparr>group := srcDims a ! nat (axis a) div group a\<rparr>"

text \<open>Planar, shape \<open>[2, 6, 2]\<close>, axis 1, group 2, one byte per element.\<close>

definition planar_262 :: ShuffleChannelsAttributes where
  "planar_262 = \<lparr>layoutType = ncsp, dataRank = 3, axis = 1, spatialRank = 1, group = 2,
     dataSize = 1, srcDims = [2, 6, 2], srcBlockedDims = [2, 6, 2]\<rparr>"

section \<open>Properties\<close>

subsection \<open>Sequencing and vector access\<close>

lemma chain_Inr [simp]: "chain (Inr x) f = f x"
  by (simp add: chain_def)

lemma chain_Inl [simp]: "chain (Inl e) f = Inl e"
  by (simp add: chain_def)

lemma chain_eq_Inr: "chain m f = Inr y \<longleftrightarrow> (\<exists>x. m = Inr x \<and> f x = Inr y)"
  by (cases m) simp_all

lemma at_inside: "0 \<le> i \<Longrightarrow> i < int (length v) \<Longrightarrow> at v i = Inr (v ! nat i)"
  by (simp add: at_def)

lemma at_eq_Inr: "at v i = Inr x \<longleftrightarrow> 0 \<le> i \<and> i < int (length v) \<and> x = v ! nat i"
  by (auto simp: at_def)

lemma assign_eq_Inr:
  "assign v i x = Inr w \<longleftrightarrow> 0 \<le> i \<and> i < int (length v) \<and> w = v[nat i := x]"
  by (auto simp: assign_def)

lemma set_order_eq_Inr:
  "set_order i x p = Inr q \<longleftrightarrow>
     0 \<le> i \<and> i < int (length (order p)) \<and> q = p\<lparr>order := (order p)[nat i := x]\<rparr>"
  by (auto simp: set_order_def chain_eq_Inr assign_eq_Inr)

lemma set_src_block_dims_eq_Inr:
  "set_src_block_dims i x p = Inr q \<longleftrightarrow>
     0 \<le> i \<and> i < int (length (src_block_dims p)) \<and>
     q = p\<lparr>src_block_dims := (src_block_dims p)[nat i := x]\<rparr>"
  by (auto simp: set_src_block_dims_def chain_eq_Inr assign_eq_Inr)

lemma set_dst_block_dims_eq_Inr:
  "set_dst_block_dims i x p = Inr q \<longleftrightarrow>
     0 \<le> i \<and> i < int (length (dst_block_dims p)) \<and>
     q = p\<lparr>dst_block_dims := (dst_block_dims p)[nat i := x]\<rparr>"
  by (auto simp: set_dst_block_dims_def chain_eq_Inr assign_eq_Inr)

lemma size_t_of_int_nonneg: "0 \<le> i \<Longrightarrow> size_t_of_int i = nat i"
  by (simp add: size_t_of_int_def)

subsection \<open>Loop rules\<close>

text \<open>Total correctness with an invariant, partial correctness, and preservation.\<close>

lemma for_loop_total:
  assumes "I i s" and "i \<le> n"
    and "\<And>j t. i \<le> j \<Longrightarrow> j < n \<Longrightarrow> I j t \<Longrightarrow> \<exists>t'. body j t = Inr t' \<and> I (j + 1) t'"
  shows "\<exists>s'. for_loop i n body s = Inr s' \<and> I n s'"
  using assms
proof (induction i n body s rule: for_loop.induct)
  case (1 i n body s)
  show ?case
  proof (cases "i < n")
    case True
    from "1.prems"(3)[of i s] True "1.prems"(1)
    obtain t' where t': "body i s = Inr t'" "I (i + 1) t'" by auto
    have "\<exists>s'. for_loop (i + 1) n body t' = Inr s' \<and> I n s'"
      using "1.IH"[OF True t'(1) t'(2)] True "1.prems"(3) by simp
    then show ?thesis using True t' by (subst for_loop.simps) simp
  next
    case False
    with "1.prems" have "i = n" by simp
    then show ?thesis using "1.prems"(1) by (subst for_loop.simps) simp
  qed
qed

lemma for_loop_partial:
  assumes "for_loop i n body s = Inr s'" and "I i s" and "i \<le> n"
    and "\<And>j t t'. i \<le> j \<Longrightarrow> j < n \<Longrightarrow> I j t \<Longrightarrow> body j t = Inr t' \<Longrightarrow> I (j + 1) t'"
  shows "I n s'"
  using assms
proof (induction i n body s rule: for_loop.induct)
  case (1 i n body s)
  show ?case
  proof (cases "i < n")
    case True
    from "1.prems"(1) True obtain t where t: "body i s = Inr t" "for_loop (i + 1) n body t = Inr s'"
      by (subst (asm) for_loop.simps) (auto split: sum.splits)
    have "I (i + 1) t" using "1.prems"(4)[of i s t] True "1.prems"(2) t(1) by simp
    then show ?thesis
      using "1.IH"[OF True t(1) t(2)] True "1.prems"(4) by simp
  next
    case False
    with "1.prems"(3) have "i = n" by simp
    moreover from "1.prems"(1) False have "s' = s" by (subst (asm) for_loop.simps) simp
    ultimately show ?thesis using "1.prems"(2) by simp
  qed
qed

lemma for_loop_preserves:
  assumes "for_loop i n body s = Inr s'" and "P s"
    and "\<And>j t t'. P t \<Longrightarrow> body j t = Inr t' \<Longrightarrow> P t'"
  shows "P s'"
  using assms
proof (induction i n body s rule: for_loop.induct)
  case (1 i n body s)
  show ?case
  proof (cases "i < n")
    case True
    from "1.prems"(1) True obtain t where t: "body i s = Inr t" "for_loop (i + 1) n body t = Inr s'"
      by (subst (asm) for_loop.simps) (auto split: sum.splits)
    have "P t" using "1.prems"(3)[of s i t] "1.prems"(2) t(1) by simp
    then show ?thesis
      using "1.IH"[OF True t(1) t(2)] "1.prems"(3) by simp
  next
    case False
    from "1.prems"(1) False have "s' = s" by (subst (asm) for_loop.simps) simp
    then show ?thesis using "1.prems"(2) by simp
  qed
qed

lemma shaped_set_order: "set_order i x p = Inr q \<Longrightarrow> shaped n es p \<Longrightarrow> shaped n es q"
  by (auto simp: set_order_eq_Inr shaped_def)

lemma shaped_set_src: "set_src_block_dims i x p = Inr q \<Longrightarrow> shaped n es p \<Longrightarrow> shaped n es q"
  by (auto simp: set_src_block_dims_eq_Inr shaped_def)

lemma shaped_set_dst: "set_dst_block_dims i x p = Inr q \<Longrightarrow> shaped n es p \<Longrightarrow> shaped n es q"
  by (auto simp: set_dst_block_dims_eq_Inr shaped_def)

lemmas shaped_set = shaped_set_order shaped_set_src shaped_set_dst

lemma shaped_decompose:
  "decomposeAndTranpose a gs ax p = Inr q \<Longrightarrow> shaped n es p \<Longrightarrow> shaped n es q"
  unfolding decomposeAndTranpose_def chain_eq_Inr
  by (blast intro: shaped_set)

lemma shaped_blocked_branch:
  assumes "blocked_branch a gs sp p = Inr q" and "shaped n es p"
  shows "shaped n es q"
proof (cases "axis a > channelDim")
  case True
  from assms(1) True obtain p1 p2 p3 where
    l: "for_loop 0 (axis a) (\<lambda>i params.
                 chain (set_order i (size_t_of_int i) params) (\<lambda>params.
                 chain (at (srcBlockedDims a) i) (\<lambda>d.
                 set_src_block_dims i d params))) p = Inr p1"
    and d: "decomposeAndTranpose a gs (axis a) p1 = Inr p2"
    and o: "set_order (axis a + 2) (size_t_of_int (axis a + 2)) p2 = Inr p3"
    and s: "\<exists>x. set_src_block_dims (axis a + 2) x p3 = Inr q"
    by (auto simp: blocked_branch_def Let_def chain_eq_Inr)
  have "shaped n es p1"
    by (rule for_loop_preserves[where P = "shaped n es", OF l assms(2)]) (auto simp: chain_eq_Inr intro: shaped_set)
  then show ?thesis using d o s by (blast intro: shaped_set shaped_decompose)
next
  case False
  from assms(1) False obtain p1 p2 where
    d: "decomposeAndTranpose a gs 0 p = Inr p1"
    and o: "set_order 2 2 p1 = Inr p2"
    and s: "\<exists>x. set_src_block_dims 2 x p2 = Inr q"
    by (auto simp: blocked_branch_def Let_def chain_eq_Inr)
  then show ?thesis using assms(2) by (blast intro: shaped_set shaped_decompose)
qed

lemma shaped_channels_last_branch:
  assumes "channels_last_branch a R gs sp p = Inr q" and "shaped n es p"
  shows "shaped n es q"
proof -
  consider (ch) "axis a = channelDim" | (sp) "axis a > channelDim" | (ba) "axis a < channelDim"
    by linarith
  then show ?thesis
  proof cases
    case ch
    with assms(1) obtain p1 p2 p3 p4 d where
      "set_order 0 0 p = Inr p1" "set_src_block_dims 0 d p1 = Inr p2"
      "set_order 1 1 p2 = Inr p3" "set_src_block_dims 1 sp p3 = Inr p4"
      "decomposeAndTranpose a gs 2 p4 = Inr q"
      by (auto simp: channels_last_branch_def Let_def chain_eq_Inr)
    then show ?thesis using assms(2) by (blast intro: shaped_set shaped_decompose)
  next
    case sp
    let ?body = "(\<lambda>i params.
                 if i = 0 then
                   chain (set_order i (size_t_of_int i) params) (\<lambda>params.
                   chain (at (srcDims a) i) (\<lambda>d.
                   set_src_block_dims i d params))
                 else if i = 1 then
                   chain (set_order (R - 1) (size_t_of_int (R - 1)) params)
                     (\<lambda>params.
                   chain (at (order params) (R - 1)) (\<lambda>j.
                   chain (at (srcDims a) i) (\<lambda>d.
                   set_src_block_dims (int j) d params)))
                 else if i > 1 then
                   chain (set_order (i - 1) (size_t_of_int (i - 1)) params) (\<lambda>params.
                   chain (at (srcDims a) i) (\<lambda>d.
                   set_src_block_dims (i - 1) d params))
                 else Inr params)"
    from assms(1) sp obtain p1 p2 where
      l: "for_loop 0 (axis a) ?body p = Inr p1"
      and d: "decomposeAndTranpose a gs (axis a - 1) p1 = Inr p2"
      and r: "(if spatialRank a \<noteq> 0 then
          chain (set_order (axis a + 1) (size_t_of_int (axis a + 1)) p2) (\<lambda>params.
          set_src_block_dims (axis a + 1) sp params)
        else Inr p2) = Inr q"
      by (auto simp: channels_last_branch_def Let_def chain_eq_Inr)
    have "shaped n es p1"
      by (rule for_loop_preserves[where P = "shaped n es", OF l assms(2)])
         (auto simp: chain_eq_Inr split: if_splits intro: shaped_set)
    then have "shaped n es p2" using d by (rule shaped_decompose[rotated])
    then show ?thesis using r
      by (auto simp: chain_eq_Inr split: if_splits intro: shaped_set)
  next
    case ba
    with assms(1) obtain p1 p2 where
      "decomposeAndTranpose a gs 0 p = Inr p1" "set_order 2 2 p1 = Inr p2"
      "set_src_block_dims 2 sp p2 = Inr q"
      by (auto simp: channels_last_branch_def Let_def chain_eq_Inr)
    then show ?thesis using assms(2) by (blast intro: shaped_set shaped_decompose)
  qed
qed

lemma shaped_planar_branch:
  assumes "planar_branch a gs sp p = Inr q" and "shaped n es p"
  shows "shaped n es q"
proof -
  from assms(1) obtain p1 p2 where
    l: "for_loop 0 (axis a) (\<lambda>i params.
               chain (at (srcDims a) i) (\<lambda>d.
               chain (set_src_block_dims i d params) (\<lambda>params.
               set_order i (size_t_of_int i) params))) p = Inr p1"
    and d: "decomposeAndTranpose a gs (axis a) p1 = Inr p2"
    and r: "(if spatialRank a \<noteq> 0 then
        chain (set_order (axis a + 2) (size_t_of_int (axis a + 2)) p2) (\<lambda>params.
        set_src_block_dims (axis a + 2) sp params)
      else Inr p2) = Inr q"
    by (auto simp: planar_branch_def Let_def chain_eq_Inr)
  have "shaped n es p1"
    by (rule for_loop_preserves[where P = "shaped n es", OF l assms(2)]) (auto simp: chain_eq_Inr intro: shaped_set)
  then have "shaped n es p2" using d by (rule shaped_decompose[rotated])
  then show ?thesis using r
    by (auto simp: chain_eq_Inr split: if_splits intro: shaped_set)
qed

lemma fill_dst_block_dims_result:
  assumes "fill_dst_block_dims R p = Inr q" and "0 \<le> R"
  shows "same_but_dst p q \<and>
         (\<forall>k < nat R. order p ! k < length (src_block_dims p) \<and>
                      dst_block_dims q ! k = src_block_dims p ! (order p ! k))"
proof -
  let ?I = "\<lambda>j t. same_but_dst p t \<and>
         (\<forall>k < nat j. order p ! k < length (src_block_dims p) \<and>
                      dst_block_dims t ! k = src_block_dims p ! (order p ! k))"
  have "?I R q"
  proof (rule for_loop_partial[where I = ?I, OF assms(1)[unfolded fill_dst_block_dims_def]])
    show "?I 0 p" by (simp add: same_but_dst_def)
    show "0 \<le> R" by fact
  next
    fix j t t'
    assume j: "0 \<le> j" "j < R" and I: "?I j t"
      and b: "chain (at (order t) j) (\<lambda>ja. chain (at (src_block_dims t) (int ja))
                (\<lambda>d. set_dst_block_dims j d t)) = Inr t'"
    from b have t': "t' = t\<lparr>dst_block_dims := (dst_block_dims t)[nat j := src_block_dims t ! (order t ! nat j)]\<rparr>"
      and jl: "j < int (length (dst_block_dims t))"
      and ol: "order t ! nat j < length (src_block_dims t)"
      by (auto simp: chain_eq_Inr at_eq_Inr set_dst_block_dims_eq_Inr)
    have "same_but_dst p t'"
      using I t' by (simp add: same_but_dst_def)
    moreover have "\<forall>k < nat (j + 1). order p ! k < length (src_block_dims p) \<and>
        dst_block_dims t' ! k = src_block_dims p ! (order p ! k)"
    proof (intro allI impI)
      fix k assume "k < nat (j + 1)"
      then have "k < nat j \<or> k = nat j" using j by linarith
      then show "order p ! k < length (src_block_dims p) \<and>
          dst_block_dims t' ! k = src_block_dims p ! (order p ! k)"
        using I t' jl j ol by (auto simp: nth_list_update same_but_dst_def)
    qed
    ultimately show "?I (j + 1) t'" by blast
  qed
  then show ?thesis by blast
qed

lemma chainE:
  assumes "chain m f = Inr y"
  obtains x where "m = Inr x" and "f x = Inr y"
  using assms by (auto simp: chain_eq_Inr)

lemma shaped_zero_params: "shaped (nat (reshapedRank a)) (dataSize a) (zero_params a)"
  by (simp add: shaped_def zero_params_def)

lemma ShuffleChannelsExecutor_params_unfold:
  assumes "one_of (layoutType a) [nCsp16c, nCsp8c, nspc, ncsp]" and "0 \<le> reshapedRank a"
  shows "ShuffleChannelsExecutor_params a =
    chain (at (srcDims a) (axis a)) (\<lambda>extent.
    chain (size_t_div extent (group a)) (\<lambda>groupSize.
    chain (if spatialRank a \<noteq> 0
           then multiply_dims (srcDims a) (axis a + 1) (dataRank a) 1
           else Inr 1) (\<lambda>spatialShapeSize.
    chain (if one_of (layoutType a) [nCsp16c, nCsp8c]
           then blocked_branch a groupSize spatialShapeSize (zero_params a)
           else if layoutType a = nspc
           then channels_last_branch a (reshapedRank a) groupSize spatialShapeSize (zero_params a)
           else planar_branch a groupSize spatialShapeSize (zero_params a)) (\<lambda>params.
    fill_dst_block_dims (reshapedRank a)
      (params\<lparr>src_block_order := [0..<length (src_block_order params)],
              dst_block_order := [0..<length (dst_block_order params)]\<rparr>)))))"
  using assms
  unfolding ShuffleChannelsExecutor_params_def Let_def resize_def zero_params_def
  by simp

lemma ShuffleChannelsExecutor_params_run:
  assumes "ShuffleChannelsExecutor_params a = Inr p"
  obtains gs sp p1 where
    "one_of (layoutType a) [nCsp16c, nCsp8c, nspc, ncsp]"
    "0 \<le> reshapedRank a"
    "(if one_of (layoutType a) [nCsp16c, nCsp8c]
           then blocked_branch a gs sp (zero_params a)
           else if layoutType a = nspc
           then channels_last_branch a (reshapedRank a) gs sp (zero_params a)
           else planar_branch a gs sp (zero_params a)) = Inr p1"
    "fill_dst_block_dims (reshapedRank a)
       (p1\<lparr>src_block_order := [0..<length (src_block_order p1)],
           dst_block_order := [0..<length (dst_block_order p1)]\<rparr>) = Inr p"
proof -
  from assms have l: "one_of (layoutType a) [nCsp16c, nCsp8c, nspc, ncsp]"
    by (auto simp: ShuffleChannelsExecutor_params_def split: if_splits)
  from assms l have r: "0 \<le> reshapedRank a"
    by (auto simp: ShuffleChannelsExecutor_params_def chain_eq_Inr resize_def split: if_splits)
  from assms[unfolded ShuffleChannelsExecutor_params_unfold[OF l r]] show ?thesis
    by (elim chainE) (rule that[OF l r])
qed

lemma ShuffleChannelsExecutor_params_shaped:
  assumes "ShuffleChannelsExecutor_params a = Inr p"
  shows "shaped (nat (reshapedRank a)) (dataSize a) p"
proof -
  let ?n = "nat (reshapedRank a)"
  from assms obtain gs sp p1 where
    b: "(if one_of (layoutType a) [nCsp16c, nCsp8c]
           then blocked_branch a gs sp (zero_params a)
           else if layoutType a = nspc
           then channels_last_branch a (reshapedRank a) gs sp (zero_params a)
           else planar_branch a gs sp (zero_params a)) = Inr p1"
    and f: "fill_dst_block_dims (reshapedRank a)
       (p1\<lparr>src_block_order := [0..<length (src_block_order p1)],
           dst_block_order := [0..<length (dst_block_order p1)]\<rparr>) = Inr p"
    and r: "0 \<le> reshapedRank a"
    by (rule ShuffleChannelsExecutor_params_run)
  from b have "shaped ?n (dataSize a) p1"
    using shaped_zero_params[of a]
    by (auto split: if_splits
        intro: shaped_blocked_branch shaped_channels_last_branch shaped_planar_branch)
  then have "shaped ?n (dataSize a) (p1\<lparr>src_block_order := [0..<length (src_block_order p1)],
           dst_block_order := [0..<length (dst_block_order p1)]\<rparr>)"
    by (simp add: shaped_def)
  with fill_dst_block_dims_result[OF f r] show ?thesis
    by (simp add: shaped_def same_but_dst_def)
qed

lemma ShuffleChannelsExecutor_params_dst:
  assumes "ShuffleChannelsExecutor_params a = Inr p" and "k < nat (reshapedRank a)"
  shows "dst_block_dims p ! k = src_block_dims p ! (order p ! k)"
proof -
  from assms(1) obtain p1 where
    f: "fill_dst_block_dims (reshapedRank a)
       (p1\<lparr>src_block_order := [0..<length (src_block_order p1)],
           dst_block_order := [0..<length (dst_block_order p1)]\<rparr>) = Inr p"
    and r: "0 \<le> reshapedRank a"
    by (rule ShuffleChannelsExecutor_params_run)
  from fill_dst_block_dims_result[OF f r] assms(2) show ?thesis
    by (simp add: same_but_dst_def)
qed

lemma ShuffleChannelsExecutor_params_order_less:
  assumes "ShuffleChannelsExecutor_params a = Inr p" and "k < nat (reshapedRank a)"
  shows "order p ! k < nat (reshapedRank a)"
proof -
  from assms(1) obtain p1 where
    f: "fill_dst_block_dims (reshapedRank a)
       (p1\<lparr>src_block_order := [0..<length (src_block_order p1)],
           dst_block_order := [0..<length (dst_block_order p1)]\<rparr>) = Inr p"
    and r: "0 \<le> reshapedRank a"
    by (rule ShuffleChannelsExecutor_params_run)
  from ShuffleChannelsExecutor_params_shaped[OF assms(1)]
  have "length (src_block_dims p) = nat (reshapedRank a)" by (simp add: shaped_def)
  with fill_dst_block_dims_result[OF f r] assms(2) show ?thesis
    by (simp add: same_but_dst_def)
qed

subsection \<open>Total correctness of the branches\<close>

lemma set_order_ok:
  "0 \<le> i \<Longrightarrow> i < int (length (order p)) \<Longrightarrow>
   set_order i x p = Inr (p\<lparr>order := (order p)[nat i := x]\<rparr>)"
  by (simp add: set_order_def assign_def)

lemma set_src_block_dims_ok:
  "0 \<le> i \<Longrightarrow> i < int (length (src_block_dims p)) \<Longrightarrow>
   set_src_block_dims i x p = Inr (p\<lparr>src_block_dims := (src_block_dims p)[nat i := x]\<rparr>)"
  by (simp add: set_src_block_dims_def assign_def)

lemma decomposeAndTranpose_ok:
  assumes "shaped n es p" and "0 \<le> ax" and "ax + 1 < int n"
  shows "decomposeAndTranpose a gs ax p =
     Inr (p\<lparr>src_block_dims := (src_block_dims p)[nat ax := group a, nat ax + 1 := gs],
            order := (order p)[nat ax := nat ax + 1, nat ax + 1 := nat ax]\<rparr>)"
  using assms
  by (simp add: decomposeAndTranpose_def shaped_def set_order_ok set_src_block_dims_ok
      size_t_of_int_nonneg nat_add_distrib)

lemma planar_branch_total:
  assumes sh: "shaped n es p"
    and ax: "0 \<le> axis a" "axis a < int (length (srcDims a))"
    and n: "int n = axis a + 2 + (if spatialRank a \<noteq> 0 then 1 else 0)"
  shows "\<exists>q. planar_branch a gs sp p = Inr q \<and>
     holds q n es (swap_at (nat (axis a)))
       (\<lambda>k. if k < nat (axis a) then srcDims a ! k
            else if k = nat (axis a) then group a
            else if k = nat (axis a) + 1 then gs else sp)"
proof -
  let ?body = "\<lambda>i params.
               chain (at (srcDims a) i) (\<lambda>d.
               chain (set_src_block_dims i d params) (\<lambda>params.
               set_order i (size_t_of_int i) params))"
  let ?I = "\<lambda>j t. shaped n es t \<and>
     (\<forall>k < nat j. order t ! k = k \<and> src_block_dims t ! k = srcDims a ! k)"
  have "\<exists>p1. for_loop 0 (axis a) ?body p = Inr p1 \<and> ?I (axis a) p1"
  proof (rule for_loop_total[where I = ?I])
    show "?I 0 p" using sh by simp
    show "0 \<le> axis a" by fact
  next
    fix j t
    assume j: "0 \<le> j" "j < axis a" and I: "?I j t"
    from I have l: "length (order t) = n" "length (src_block_dims t) = n"
      by (simp_all add: shaped_def)
    have jn: "j < int n" using j n by (simp split: if_splits)
    let ?t' = "t\<lparr>src_block_dims := (src_block_dims t)[nat j := srcDims a ! nat j],
                 order := (order t)[nat j := nat j]\<rparr>"
    have "?body j t = Inr ?t'"
      using j ax jn l
      by (simp add: at_inside set_src_block_dims_ok set_order_ok size_t_of_int_nonneg)
    moreover have "shaped n es ?t'" using I by (simp add: shaped_def)
    moreover have "\<forall>k < nat (j + 1). order ?t' ! k = k \<and> src_block_dims ?t' ! k = srcDims a ! k"
    proof (intro allI impI)
      fix k assume "k < nat (j + 1)"
      then have "k < nat j \<or> k = nat j" using j by linarith
      then show "order ?t' ! k = k \<and> src_block_dims ?t' ! k = srcDims a ! k"
        using I l jn j by (auto simp: nth_list_update)
    qed
    ultimately show "\<exists>t'. ?body j t = Inr t' \<and> ?I (j + 1) t'" by blast
  qed
  then obtain p1 where p1: "for_loop 0 (axis a) ?body p = Inr p1" and I1: "?I (axis a) p1"
    by blast
  from I1 have sh1: "shaped n es p1" by simp
  have b: "axis a + 1 < int n" using n by (simp split: if_splits)
  note d = decomposeAndTranpose_ok[OF sh1 ax(1) b, of a gs]
  let ?p2 = "p1\<lparr>src_block_dims := (src_block_dims p1)[nat (axis a) := group a, nat (axis a) + 1 := gs],
            order := (order p1)[nat (axis a) := nat (axis a) + 1, nat (axis a) + 1 := nat (axis a)]\<rparr>"
  have l1: "length (order p1) = n" "length (src_block_dims p1) = n"
    using sh1 by (simp_all add: shaped_def)
  show ?thesis
  proof (cases "spatialRank a \<noteq> 0")
    case True
    then have n3: "n = nat (axis a) + 3" using n ax by simp
    let ?q = "?p2\<lparr>order := (order ?p2)[nat (axis a) + 2 := nat (axis a) + 2],
                  src_block_dims := (src_block_dims ?p2)[nat (axis a) + 2 := sp]\<rparr>"
    have "planar_branch a gs sp p = Inr ?q"
      using True p1 d ax n3 l1
      by (simp add: planar_branch_def Let_def set_order_ok set_src_block_dims_ok
          size_t_of_int_nonneg nat_add_distrib)
    moreover have "holds ?q n es (swap_at (nat (axis a)))
       (\<lambda>k. if k < nat (axis a) then srcDims a ! k
            else if k = nat (axis a) then group a
            else if k = nat (axis a) + 1 then gs else sp)"
      using I1 l1 n3 unfolding holds_def shaped_def swap_at_def
      by (auto simp: nth_list_update)
    ultimately show ?thesis by blast
  next
    case False
    then have n2: "n = nat (axis a) + 2" using n ax by simp
    have "planar_branch a gs sp p = Inr ?p2"
      using False p1 d by (simp add: planar_branch_def Let_def)
    moreover have "holds ?p2 n es (swap_at (nat (axis a)))
       (\<lambda>k. if k < nat (axis a) then srcDims a ! k
            else if k = nat (axis a) then group a
            else if k = nat (axis a) + 1 then gs else sp)"
      using I1 l1 n2 unfolding holds_def shaped_def swap_at_def
      by (auto simp: nth_list_update)
    ultimately show ?thesis by blast
  qed
qed

lemma multiply_dims_total:
  assumes "0 \<le> i" and "n \<le> int (length dims)"
  shows "multiply_dims dims i n acc =
     Inr (fold (\<lambda>d s. size_t_mul s d) (drop (nat i) (take (nat n) dims)) acc)"
proof (cases "i \<le> n")
  case False
  then show ?thesis
    unfolding multiply_dims_def by (subst for_loop.simps) simp
next
  case True
  let ?f = "\<lambda>d s. size_t_mul s d"
  let ?I = "\<lambda>j s. s = fold ?f (drop (nat i) (take (nat j) dims)) acc"
  have "\<exists>s'. for_loop i n (\<lambda>i s. chain (at dims i) (\<lambda>d. Inr (size_t_mul s d))) acc = Inr s'
          \<and> ?I n s'"
  proof (rule for_loop_total[where I = ?I])
    show "?I i acc" by simp
    show "i \<le> n" by fact
  next
    fix j t
    assume j: "i \<le> j" "j < n" and I: "?I j t"
    have jl: "nat j < length dims" using j assms by linarith
    have "take (nat (j + 1)) dims = take (nat j) dims @ [dims ! nat j]"
      using jl j assms(1) by (simp add: nat_add_distrib take_Suc_conv_app_nth)
    moreover have "nat i \<le> length (take (nat j) dims)" using j jl assms(1) by simp
    ultimately have "fold ?f (drop (nat i) (take (nat (j + 1)) dims)) acc = size_t_mul t (dims ! nat j)"
      using I by simp
    moreover have "at dims j = Inr (dims ! nat j)"
      using jl j assms(1) by (simp add: at_inside)
    ultimately show "\<exists>t'. chain (at dims j) (\<lambda>d. Inr (size_t_mul t d)) = Inr t' \<and> ?I (j + 1) t'"
      by simp
  qed
  then show ?thesis by (auto simp: multiply_dims_def)
qed

lemma blocked_branch_spatial_total:
  assumes sh: "shaped n es p"
    and ax: "channelDim < axis a" "axis a < int (length (srcBlockedDims a))"
    and n: "int n = axis a + 3"
  shows "\<exists>q. blocked_branch a gs sp p = Inr q \<and>
     holds q n es (swap_at (nat (axis a)))
       (\<lambda>k. if k < nat (axis a) then srcBlockedDims a ! k
            else if k = nat (axis a) then group a
            else if k = nat (axis a) + 1 then gs
            else size_t_mul sp (last (srcBlockedDims a)))"
proof -
  have ax0: "0 \<le> axis a" "1 < axis a" using ax by (simp_all add: channelDim_def)
  let ?body = "\<lambda>i params.
                 chain (set_order i (size_t_of_int i) params) (\<lambda>params.
                 chain (at (srcBlockedDims a) i) (\<lambda>d.
                 set_src_block_dims i d params))"
  let ?I = "\<lambda>j t. shaped n es t \<and>
     (\<forall>k < nat j. order t ! k = k \<and> src_block_dims t ! k = srcBlockedDims a ! k)"
  have "\<exists>p1. for_loop 0 (axis a) ?body p = Inr p1 \<and> ?I (axis a) p1"
  proof (rule for_loop_total[where I = ?I])
    show "?I 0 p" using sh by simp
    show "0 \<le> axis a" by fact
  next
    fix j t
    assume j: "0 \<le> j" "j < axis a" and I: "?I j t"
    from I have l: "length (order t) = n" "length (src_block_dims t) = n"
      by (simp_all add: shaped_def)
    have jn: "j < int n" using j n by simp
    let ?t' = "t\<lparr>order := (order t)[nat j := nat j],
                 src_block_dims := (src_block_dims t)[nat j := srcBlockedDims a ! nat j]\<rparr>"
    have "?body j t = Inr ?t'"
      using j ax jn l
      by (simp add: at_inside set_src_block_dims_ok set_order_ok size_t_of_int_nonneg)
    moreover have "shaped n es ?t'" using I by (simp add: shaped_def)
    moreover have "\<forall>k < nat (j + 1). order ?t' ! k = k \<and>
        src_block_dims ?t' ! k = srcBlockedDims a ! k"
    proof (intro allI impI)
      fix k assume "k < nat (j + 1)"
      then have "k < nat j \<or> k = nat j" using j by linarith
      then show "order ?t' ! k = k \<and> src_block_dims ?t' ! k = srcBlockedDims a ! k"
        using I l jn j by (auto simp: nth_list_update)
    qed
    ultimately show "\<exists>t'. ?body j t = Inr t' \<and> ?I (j + 1) t'" by blast
  qed
  then obtain p1 where p1: "for_loop 0 (axis a) ?body p = Inr p1" and I1: "?I (axis a) p1"
    by blast
  from I1 have sh1: "shaped n es p1" by simp
  have b: "axis a + 1 < int n" using n by simp
  note d = decomposeAndTranpose_ok[OF sh1 ax0(1) b, of a gs]
  let ?p2 = "p1\<lparr>src_block_dims := (src_block_dims p1)[nat (axis a) := group a, nat (axis a) + 1 := gs],
            order := (order p1)[nat (axis a) := nat (axis a) + 1, nat (axis a) + 1 := nat (axis a)]\<rparr>"
  have l1: "length (order p1) = n" "length (src_block_dims p1) = n"
    using sh1 by (simp_all add: shaped_def)
  have n3: "n = nat (axis a) + 3" using n ax0 by simp
  have ne: "srcBlockedDims a \<noteq> []" "1 < int (length (srcBlockedDims a))"
    using ax ax0 by auto
  let ?q = "?p2\<lparr>order := (order ?p2)[nat (axis a) + 2 := nat (axis a) + 2],
                src_block_dims := (src_block_dims ?p2)[nat (axis a) + 2 :=
                    size_t_mul sp (last (srcBlockedDims a))]\<rparr>"
  have "blocked_branch a gs sp p = Inr ?q"
    using p1 d ax ax0 n3 l1 ne
    by (simp add: blocked_branch_def Let_def vec_back_def at_inside set_order_ok
        set_src_block_dims_ok size_t_of_int_nonneg nat_add_distrib)
  moreover have "holds ?q n es (swap_at (nat (axis a)))
       (\<lambda>k. if k < nat (axis a) then srcBlockedDims a ! k
            else if k = nat (axis a) then group a
            else if k = nat (axis a) + 1 then gs
            else size_t_mul sp (last (srcBlockedDims a)))"
    using I1 l1 n3 unfolding holds_def shaped_def swap_at_def
    by (auto simp: nth_list_update)
  ultimately show ?thesis by blast
qed

lemma blocked_branch_batch_total:
  assumes sh: "shaped 3 es p"
    and ax: "axis a = 0" "dataRank a = int (length (srcDims a))"
      "1 < length (srcBlockedDims a)"
  shows "\<exists>q. blocked_branch a gs sp p = Inr q \<and>
     holds q 3 es (swap_at 0)
       (\<lambda>k. if k = 0 then group a else if k = 1 then gs
            else fold (\<lambda>d s. size_t_mul s d) (drop 2 (srcDims a))
                   (size_t_mul (srcBlockedDims a ! 1) (last (srcBlockedDims a))))"
proof -
  have d: "decomposeAndTranpose a gs 0 p =
     Inr (p\<lparr>src_block_dims := (src_block_dims p)[0 := group a, 1 := gs],
            order := (order p)[0 := 1, 1 := 0]\<rparr>)"
    using decomposeAndTranpose_ok[OF sh, of 0 a gs] by simp
  have m: "multiply_dims (srcDims a) 2 (dataRank a)
             (size_t_mul (srcBlockedDims a ! 1) (last (srcBlockedDims a))) =
     Inr (fold (\<lambda>d s. size_t_mul s d) (drop 2 (srcDims a))
                   (size_t_mul (srcBlockedDims a ! 1) (last (srcBlockedDims a))))"
    using multiply_dims_total[of 2 "dataRank a" "srcDims a"] ax(2) by simp
  have ne: "srcBlockedDims a \<noteq> []" using ax(3) by auto
  have l: "length (order p) = 3" "length (src_block_dims p) = 3"
    using sh by (simp_all add: shaped_def)
  let ?sp = "fold (\<lambda>d s. size_t_mul s d) (drop 2 (srcDims a))
                   (size_t_mul (srcBlockedDims a ! 1) (last (srcBlockedDims a)))"
  let ?q = "p\<lparr>src_block_dims := (src_block_dims p)[0 := group a, 1 := gs, 2 := ?sp],
            order := (order p)[0 := 1, 1 := 0, 2 := 2]\<rparr>"
  have "blocked_branch a gs sp p = Inr ?q"
    using d m ax ne l
    by (simp add: blocked_branch_def Let_def vec_back_def at_inside channelDim_def
        set_order_ok set_src_block_dims_ok)
  moreover have "holds ?q 3 es (swap_at 0)
       (\<lambda>k. if k = 0 then group a else if k = 1 then gs else ?sp)"
    using sh l unfolding holds_def shaped_def swap_at_def
    by (auto simp: nth_list_update)
  ultimately show ?thesis by blast
qed

lemma channels_last_branch_channel_total:
  assumes sh: "shaped 4 es p" and ax: "axis a = 1" "0 < length (srcDims a)"
  shows "\<exists>q. channels_last_branch a R gs sp p = Inr q \<and>
     holds q 4 es (swap_at 2)
       (\<lambda>k. if k = 0 then srcDims a ! 0 else if k = 1 then sp
            else if k = 2 then group a else gs)"
proof -
  have l: "length (order p) = 4" "length (src_block_dims p) = 4"
    using sh by (simp_all add: shaped_def)
  let ?p1 = "p\<lparr>order := (order p)[0 := 0, 1 := 1],
               src_block_dims := (src_block_dims p)[0 := srcDims a ! 0, 1 := sp]\<rparr>"
  have sh1: "shaped 4 es ?p1" using sh by (simp add: shaped_def)
  have d: "decomposeAndTranpose a gs 2 ?p1 =
     Inr (?p1\<lparr>src_block_dims := (src_block_dims ?p1)[2 := group a, 3 := gs],
            order := (order ?p1)[2 := 3, 3 := 2]\<rparr>)"
    using decomposeAndTranpose_ok[OF sh1, of 2 a gs] by (simp add: numeral_3_eq_3)
  let ?q = "?p1\<lparr>src_block_dims := (src_block_dims ?p1)[2 := group a, 3 := gs],
            order := (order ?p1)[2 := 3, 3 := 2]\<rparr>"
  have "channels_last_branch a R gs sp p = Inr ?q"
    using d ax l
    by (simp add: channels_last_branch_def Let_def channelDim_def at_inside
        set_order_ok set_src_block_dims_ok)
  moreover have "holds ?q 4 es (swap_at 2)
       (\<lambda>k. if k = 0 then srcDims a ! 0 else if k = 1 then sp
            else if k = 2 then group a else gs)"
    using sh l unfolding holds_def shaped_def swap_at_def
    by (auto simp: nth_list_update)
  ultimately show ?thesis by blast
qed

lemma channels_last_branch_batch_total:
  assumes sh: "shaped 3 es p" and ax: "axis a = 0"
  shows "\<exists>q. channels_last_branch a R gs sp p = Inr q \<and>
     holds q 3 es (swap_at 0)
       (\<lambda>k. if k = 0 then group a else if k = 1 then gs else sp)"
proof -
  have l: "length (order p) = 3" "length (src_block_dims p) = 3"
    using sh by (simp_all add: shaped_def)
  have d: "decomposeAndTranpose a gs 0 p =
     Inr (p\<lparr>src_block_dims := (src_block_dims p)[0 := group a, 1 := gs],
            order := (order p)[0 := 1, 1 := 0]\<rparr>)"
    using decomposeAndTranpose_ok[OF sh, of 0 a gs] by simp
  let ?q = "p\<lparr>src_block_dims := (src_block_dims p)[0 := group a, 1 := gs, 2 := sp],
            order := (order p)[0 := 1, 1 := 0, 2 := 2]\<rparr>"
  have "channels_last_branch a R gs sp p = Inr ?q"
    using d ax l
    by (simp add: channels_last_branch_def Let_def channelDim_def
        set_order_ok set_src_block_dims_ok)
  moreover have "holds ?q 3 es (swap_at 0)
       (\<lambda>k. if k = 0 then group a else if k = 1 then gs else sp)"
    using sh l unfolding holds_def shaped_def swap_at_def
    by (auto simp: nth_list_update)
  ultimately show ?thesis by blast
qed

lemma channels_last_branch_spatial_total:
  assumes sh: "shaped n es p"
    and ax: "axis a = int d0 + 1" "1 \<le> d0" "d0 + 1 < length (srcDims a)"
    and n: "n = d0 + 3 + (if spatialRank a \<noteq> 0 then 1 else 0)"
  shows "\<exists>q. channels_last_branch a (int n) gs sp p = Inr q \<and>
     holds q n es (swap_at d0)
       (\<lambda>k. if k = 0 then srcDims a ! 0
            else if k < d0 then srcDims a ! (k + 1)
            else if k = d0 then group a
            else if k = d0 + 1 then gs
            else if k = n - 1 then srcDims a ! 1 else sp)"
proof -
  let ?R = "int n"
  let ?body = "(\<lambda>i params.
                 if i = 0 then
                   chain (set_order i (size_t_of_int i) params) (\<lambda>params.
                   chain (at (srcDims a) i) (\<lambda>d.
                   set_src_block_dims i d params))
                 else if i = 1 then
                   chain (set_order (?R - 1) (size_t_of_int (?R - 1)) params)
                     (\<lambda>params.
                   chain (at (order params) (?R - 1)) (\<lambda>j.
                   chain (at (srcDims a) i) (\<lambda>d.
                   set_src_block_dims (int j) d params)))
                 else if i > 1 then
                   chain (set_order (i - 1) (size_t_of_int (i - 1)) params) (\<lambda>params.
                   chain (at (srcDims a) i) (\<lambda>d.
                   set_src_block_dims (i - 1) d params))
                 else Inr params)"
  let ?I = "\<lambda>j t. shaped n es t \<and>
     (0 < j \<longrightarrow> order t ! 0 = 0 \<and> src_block_dims t ! 0 = srcDims a ! 0) \<and>
     (1 < j \<longrightarrow> order t ! (n - 1) = n - 1 \<and> src_block_dims t ! (n - 1) = srcDims a ! 1) \<and>
     (\<forall>k. 1 \<le> k \<and> int k + 1 < j \<longrightarrow> order t ! k = k \<and> src_block_dims t ! k = srcDims a ! (k + 1))"
  have n2: "d0 + 3 \<le> n" using n by simp
  have "\<exists>p1. for_loop 0 (axis a) ?body p = Inr p1 \<and> ?I (axis a) p1"
  proof (rule for_loop_total[where I = ?I])
    show "?I 0 p" using sh by simp
    show "0 \<le> axis a" using ax by simp
  next
    fix j t
    assume j: "0 \<le> j" "j < axis a" and I: "?I j t"
    from I have l: "length (order t) = n" "length (src_block_dims t) = n"
      by (simp_all add: shaped_def)
    have jn: "j + 2 < int n" using j n2 ax by simp
    have dl: "0 < length (srcDims a)" "1 < int (length (srcDims a))" using ax by auto
    consider (zero) "j = 0" | (one) "j = 1" | (more) "1 < j" using j by linarith
    then show "\<exists>t'. ?body j t = Inr t' \<and> ?I (j + 1) t'"
    proof cases
      case zero
      let ?t' = "t\<lparr>order := (order t)[0 := 0],
                   src_block_dims := (src_block_dims t)[0 := srcDims a ! 0]\<rparr>"
      have "?body j t = Inr ?t'"
        using zero jn l dl
        by (simp add: at_inside set_src_block_dims_ok set_order_ok size_t_of_int_nonneg)
      moreover have "?I (j + 1) ?t'"
        using zero I l jn by (simp add: shaped_def)
      ultimately show ?thesis by blast
    next
      case one
      let ?t' = "t\<lparr>order := (order t)[n - 1 := n - 1],
                   src_block_dims := (src_block_dims t)[n - 1 := srcDims a ! 1]\<rparr>"
      have n1: "nat (int n - 1) = n - 1" "0 \<le> int n - 1" "int n - 1 < int n" "int (n - 1) < int n"
        using jn one by simp_all
      have "?body j t = Inr ?t'"
        using one jn l n1 dl
        by (simp add: at_inside set_src_block_dims_ok set_order_ok size_t_of_int_nonneg)
      moreover have "?I (j + 1) ?t'"
        using one I l jn by (simp add: shaped_def nth_list_update)
      ultimately show ?thesis by blast
    next
      case more
      obtain i where i: "j = int i + 1" "1 \<le> i"
      proof
        show "j = int (nat (j - 1)) + 1" using more by simp
        show "1 \<le> nat (j - 1)" using more by linarith
      qed
      let ?t' = "t\<lparr>order := (order t)[i := i],
                   src_block_dims := (src_block_dims t)[i := srcDims a ! (i + 1)]\<rparr>"
      have il: "i + 1 < length (srcDims a)" "i < n" "i + 2 < n" using i j ax jn by simp_all
      have ni: "nat (int i + 1) = i + 1" by simp
      have "?body j t = Inr ?t'"
        using i il l
        by (simp add: at_inside set_src_block_dims_ok set_order_ok size_t_of_int_nonneg ni)
      moreover have "shaped n es ?t'" using I by (simp add: shaped_def)
      moreover have "order ?t' ! 0 = 0 \<and> src_block_dims ?t' ! 0 = srcDims a ! 0"
        using i I l by (simp add: nth_list_update)
      moreover have "order ?t' ! (n - 1) = n - 1 \<and> src_block_dims ?t' ! (n - 1) = srcDims a ! 1"
        using i I l il by (simp add: nth_list_update)
      moreover have "\<forall>k. 1 \<le> k \<and> int k + 1 < j + 1 \<longrightarrow>
          order ?t' ! k = k \<and> src_block_dims ?t' ! k = srcDims a ! (k + 1)"
      proof (intro allI impI)
        fix k assume k: "1 \<le> k \<and> int k + 1 < j + 1"
        then have "int k + 1 < j \<or> k = i" using i by linarith
        then show "order ?t' ! k = k \<and> src_block_dims ?t' ! k = srcDims a ! (k + 1)"
          using k I l il by (auto simp: nth_list_update)
      qed
      ultimately show ?thesis using i by simp
    qed
  qed
  then obtain p1 where p1: "for_loop 0 (axis a) ?body p = Inr p1" and I1: "?I (axis a) p1"
    by blast
  from I1 have sh1: "shaped n es p1" by simp
  from I1 ax have F: "order p1 ! 0 = 0" "src_block_dims p1 ! 0 = srcDims a ! 0"
    "order p1 ! (n - 1) = n - 1" "src_block_dims p1 ! (n - 1) = srcDims a ! 1"
    "\<And>k. 1 \<le> k \<Longrightarrow> k < d0 \<Longrightarrow> order p1 ! k = k \<and> src_block_dims p1 ! k = srcDims a ! (k + 1)"
    by simp_all
  have b: "0 \<le> axis a - 1" "axis a - 1 + 1 < int n" using ax n2 by simp_all
  have na: "nat (axis a - 1) = d0" using ax by simp
  note d = decomposeAndTranpose_ok[OF sh1 b, of a gs, unfolded na]
  let ?p2 = "p1\<lparr>src_block_dims := (src_block_dims p1)[d0 := group a, d0 + 1 := gs],
            order := (order p1)[d0 := d0 + 1, d0 + 1 := d0]\<rparr>"
  have l1: "length (order p1) = n" "length (src_block_dims p1) = n"
    using sh1 by (simp_all add: shaped_def)
  let ?fs = "\<lambda>k. if k = 0 then srcDims a ! 0
            else if k < d0 then srcDims a ! (k + 1)
            else if k = d0 then group a
            else if k = d0 + 1 then gs
            else if k = n - 1 then srcDims a ! 1 else sp"
  show ?thesis
  proof (cases "spatialRank a \<noteq> 0")
    case True
    then have n3: "n = d0 + 4" using n by simp
    let ?q = "?p2\<lparr>order := (order ?p2)[d0 + 2 := d0 + 2],
                  src_block_dims := (src_block_dims ?p2)[d0 + 2 := sp]\<rparr>"
    have b1: "0 \<le> axis a + 1" "axis a + 1 < int (length (order p1))"
      "axis a + 1 < int (length (src_block_dims p1))" "nat (axis a + 1) = d0 + 2"
      "1 < axis a"
      using ax n3 l1 by simp_all
    have "channels_last_branch a (int n) gs sp p = Inr ?q"
      using True p1 d b1
      by (simp add: channels_last_branch_def Let_def channelDim_def set_order_ok
          set_src_block_dims_ok size_t_of_int_nonneg)
    moreover have "holds ?q n es (swap_at d0) ?fs"
      unfolding holds_def
    proof (intro conjI allI impI)
      show "shaped n es ?q" using sh1 by (simp add: shaped_def)
    next
      fix k assume "k < n"
      then consider "k = 0" | "1 \<le> k \<and> k < d0" | "k = d0"
        | "k = d0 + 1" | "k = d0 + 2" | "k = d0 + 3"
        using n3 by linarith
      then show "order ?q ! k = swap_at d0 k"
        using F l1 n3 ax(2) by cases (simp_all add: nth_list_update swap_at_def ac_simps)
    next
      fix k assume "k < n"
      then consider "k = 0" | "1 \<le> k \<and> k < d0" | "k = d0"
        | "k = d0 + 1" | "k = d0 + 2" | "k = d0 + 3"
        using n3 by linarith
      then show "src_block_dims ?q ! k = ?fs k"
        using F l1 n3 ax(2) by cases (simp_all add: nth_list_update ac_simps)
    qed
    ultimately show ?thesis by blast
  next
    case False
    then have n3: "n = d0 + 3" using n by simp
    have "channels_last_branch a (int n) gs sp p = Inr ?p2"
      using False p1 d ax(1,2)
      by (simp add: channels_last_branch_def Let_def channelDim_def)
    moreover have "holds ?p2 n es (swap_at d0) ?fs"
      unfolding holds_def
    proof (intro conjI allI impI)
      show "shaped n es ?p2" using sh1 by (simp add: shaped_def)
    next
      fix k assume "k < n"
      then consider "k = 0" | "1 \<le> k \<and> k < d0" | "k = d0"
        | "k = d0 + 1" | "k = d0 + 2"
        using n3 by linarith
      then show "order ?p2 ! k = swap_at d0 k"
        using F l1 n3 ax(2) by cases (simp_all add: nth_list_update swap_at_def ac_simps)
    next
      fix k assume "k < n"
      then consider "k = 0" | "1 \<le> k \<and> k < d0" | "k = d0"
        | "k = d0 + 1" | "k = d0 + 2"
        using n3 by linarith
      then show "src_block_dims ?p2 ! k = ?fs k"
        using F l1 n3 ax(2) by cases (simp_all add: nth_list_update ac_simps)
    qed
    ultimately show ?thesis by blast
  qed
qed

lemma fill_dst_block_dims_total:
  assumes sh: "shaped n es p" and o: "\<forall>k < n. order p ! k < n"
  shows "\<exists>q. fill_dst_block_dims (int n) p = Inr q"
proof -
  let ?body = "\<lambda>i params.
       chain (at (order params) i) (\<lambda>j.
       chain (at (src_block_dims params) (int j)) (\<lambda>d.
       set_dst_block_dims i d params))"
  have "\<exists>q. for_loop 0 (int n) ?body p = Inr q \<and> same_but_dst p q"
  proof (rule for_loop_total[where I = "\<lambda>j t. same_but_dst p t"])
    show "same_but_dst p p" by (simp add: same_but_dst_def)
    show "0 \<le> int n" by simp
  next
    fix j t
    assume j: "0 \<le> j" "j < int n" and I: "same_but_dst p t"
    have l: "length (order t) = n" "length (src_block_dims t) = n" "length (dst_block_dims t) = n"
      "order t = order p"
      using I sh by (simp_all add: same_but_dst_def shaped_def)
    have "order p ! nat j < n" using o j by simp
    then have "?body j t = Inr (t\<lparr>dst_block_dims :=
        (dst_block_dims t)[nat j := src_block_dims t ! (order t ! nat j)]\<rparr>)"
      using j l by (simp add: at_inside set_dst_block_dims_def assign_def)
    moreover have "same_but_dst p (t\<lparr>dst_block_dims :=
        (dst_block_dims t)[nat j := src_block_dims t ! (order t ! nat j)]\<rparr>)"
      using I by (simp add: same_but_dst_def)
    ultimately show "\<exists>t'. ?body j t = Inr t' \<and> same_but_dst p t'" by blast
  qed
  then show ?thesis by (auto simp: fill_dst_block_dims_def)
qed

lemma holds_cong:
  "holds q n es fo fs \<Longrightarrow> (\<And>k. k < n \<Longrightarrow> fo k = fo' k) \<Longrightarrow> (\<And>k. k < n \<Longrightarrow> fs k = fs' k)
   \<Longrightarrow> holds q n es fo' fs'"
  by (simp add: holds_def)

lemma branch_total:
  assumes wf: "well_formed a" and off: "offered a"
    and sh: "shaped (nat (reshapedRank a)) es p"
  shows "\<exists>q. (if one_of (layoutType a) [nCsp16c, nCsp8c]
           then blocked_branch a (groupSize a) (spatialShapeSize a) p
           else if layoutType a = nspc
           then channels_last_branch a (reshapedRank a) (groupSize a) (spatialShapeSize a) p
           else planar_branch a (groupSize a) (spatialShapeSize a) p) = Inr q \<and>
         holds q (nat (reshapedRank a)) es (swap_at (decomposed_at a)) (src_extent a)"
proof -
  let ?n = "nat (reshapedRank a)"
  from wf have ax: "0 \<le> axis a" "axis a < int (length (srcDims a))"
    and dr: "dataRank a = int (length (srcDims a))"
    and sr: "spatialRank a = dataRank a - axis a - 1"
    by (simp_all add: well_formed_def)
  have ax_cases: "axis a = 0 \<or> axis a = 1 \<or> channelDim < axis a"
    using ax(1) unfolding channelDim_def by linarith
  have lay: "isBlocked a \<or> layoutType a = nspc \<or> layoutType a = ncsp"
    using wf by (auto simp: well_formed_def one_of_def isBlocked_def)
  have gate: "isBlocked a \<Longrightarrow> axis a \<noteq> 1"
    using off by (simp add: offered_def)
  have cd: "channelDim < axis a \<longleftrightarrow> 1 < axis a" by (simp add: channelDim_def)
  consider (blk_sp) "isBlocked a" "channelDim < axis a"
    | (blk_b) "isBlocked a" "axis a = 0"
    | (cl_ch) "layoutType a = nspc" "axis a = 1"
    | (cl_sp) "layoutType a = nspc" "1 < axis a"
    | (cl_b) "layoutType a = nspc" "axis a = 0"
    | (pl) "layoutType a = ncsp"
    using ax_cases lay gate cd by blast
  then show ?thesis
  proof cases
    case blk_sp
    then have bl: "length (srcBlockedDims a) = length (srcDims a) + 1"
      using wf by (simp add: well_formed_def)
    have n: "int ?n = axis a + 3"
      using blk_sp ax by (simp add: reshapedRank_def isBlocked_def)
    have "axis a < int (length (srcBlockedDims a))" using ax bl by simp
    from blocked_branch_spatial_total[OF sh blk_sp(2) this n, of "groupSize a" "spatialShapeSize a"]
    obtain q where q: "blocked_branch a (groupSize a) (spatialShapeSize a) p = Inr q"
      and h: "holds q ?n es (swap_at (nat (axis a)))
       (\<lambda>k. if k < nat (axis a) then srcBlockedDims a ! k
            else if k = nat (axis a) then group a
            else if k = nat (axis a) + 1 then groupSize a
            else size_t_mul (spatialShapeSize a) (last (srcBlockedDims a)))"
      by blast
    have "holds q ?n es (swap_at (decomposed_at a)) (src_extent a)"
      by (rule holds_cong[OF h]) (use blk_sp in \<open>simp_all add: src_extent_def decomposed_at_def\<close>)
    then show ?thesis using q blk_sp by (auto simp: isBlocked_def)
  next
    case blk_b
    then have bl: "1 < length (srcBlockedDims a)"
      using wf ax by (simp add: well_formed_def)
    have n: "?n = 3"
      using blk_b by (simp add: reshapedRank_def isBlocked_def)
    from blocked_branch_batch_total[OF sh[unfolded n] blk_b(2) dr bl,
        of "groupSize a" "spatialShapeSize a"]
    obtain q where q: "blocked_branch a (groupSize a) (spatialShapeSize a) p = Inr q"
      and h: "holds q 3 es (swap_at 0)
       (\<lambda>k. if k = 0 then group a else if k = 1 then groupSize a
            else fold (\<lambda>d s. size_t_mul s d) (drop 2 (srcDims a))
                   (size_t_mul (srcBlockedDims a ! 1) (last (srcBlockedDims a))))"
      by blast
    have "holds q 3 es (swap_at (decomposed_at a)) (src_extent a)"
      by (rule holds_cong[OF h])
         (use blk_b in \<open>simp_all add: src_extent_def decomposed_at_def channelDim_def\<close>)
    then show ?thesis using q blk_b n by (auto simp: isBlocked_def)
  next
    case cl_ch
    then have "spatialRank a \<noteq> 0" using off by (simp add: offered_def)
    then have n: "?n = 4" and l: "0 < length (srcDims a)"
      using cl_ch ax by (auto simp: reshapedRank_def one_of_def)
    have nb: "\<not> isBlocked a" "\<not> one_of (layoutType a) [nCsp16c, nCsp8c]"
      using cl_ch by (simp_all add: isBlocked_def one_of_def)
    from channels_last_branch_channel_total[OF sh[unfolded n] cl_ch(2) l,
        of "reshapedRank a" "groupSize a" "spatialShapeSize a"]
    obtain q where q: "channels_last_branch a (reshapedRank a) (groupSize a) (spatialShapeSize a) p = Inr q"
      and h: "holds q 4 es (swap_at 2)
       (\<lambda>k. if k = 0 then srcDims a ! 0 else if k = 1 then spatialShapeSize a
            else if k = 2 then group a else groupSize a)"
      by blast
    have "holds q 4 es (swap_at (decomposed_at a)) (src_extent a)"
      by (rule holds_cong[OF h])
         (use cl_ch nb in \<open>simp_all add: src_extent_def decomposed_at_def channelDim_def\<close>)
    then show ?thesis using q cl_ch n nb by auto
  next
    case cl_sp
    define d0 where "d0 = nat (axis a) - 1"
    have d0: "axis a = int d0 + 1" "1 \<le> d0" "d0 + 1 < length (srcDims a)"
      using cl_sp ax by (simp_all add: d0_def)
    have nb: "\<not> isBlocked a" "\<not> one_of (layoutType a) [nCsp16c, nCsp8c]"
      using cl_sp by (simp_all add: isBlocked_def one_of_def)
    have n: "?n = d0 + 3 + (if spatialRank a \<noteq> 0 then 1 else 0)"
      using cl_sp d0 nb by (auto simp: reshapedRank_def)
    have r: "reshapedRank a = int ?n" using ax by (simp add: reshapedRank_def)
    from channels_last_branch_spatial_total[OF sh d0 n, of "groupSize a" "spatialShapeSize a"]
    obtain q where q: "channels_last_branch a (int ?n) (groupSize a) (spatialShapeSize a) p = Inr q"
      and h: "holds q ?n es (swap_at d0)
       (\<lambda>k. if k = 0 then srcDims a ! 0
            else if k < d0 then srcDims a ! (k + 1)
            else if k = d0 then group a
            else if k = d0 + 1 then groupSize a
            else if k = ?n - 1 then srcDims a ! 1 else spatialShapeSize a)"
      by blast
    have e: "nat (axis a) - 1 = d0" "nat (axis a) = d0 + 1" using d0 by simp_all
    have "holds q ?n es (swap_at (decomposed_at a)) (src_extent a)"
      by (rule holds_cong[OF h])
         (use cl_sp nb e in \<open>simp_all add: src_extent_def decomposed_at_def channelDim_def\<close>)
    then show ?thesis using q cl_sp nb r by auto
  next
    case cl_b
    then have "spatialRank a \<noteq> 0" using off by (simp add: offered_def)
    then have n: "?n = 3"
      using cl_b by (auto simp: reshapedRank_def one_of_def)
    have nb: "\<not> isBlocked a" "\<not> one_of (layoutType a) [nCsp16c, nCsp8c]"
      using cl_b by (simp_all add: isBlocked_def one_of_def)
    from channels_last_branch_batch_total[OF sh[unfolded n] cl_b(2),
        of "reshapedRank a" "groupSize a" "spatialShapeSize a"]
    obtain q where q: "channels_last_branch a (reshapedRank a) (groupSize a) (spatialShapeSize a) p = Inr q"
      and h: "holds q 3 es (swap_at 0)
       (\<lambda>k. if k = 0 then group a else if k = 1 then groupSize a else spatialShapeSize a)"
      by blast
    have "holds q 3 es (swap_at (decomposed_at a)) (src_extent a)"
      by (rule holds_cong[OF h])
         (use cl_b nb in \<open>simp_all add: src_extent_def decomposed_at_def channelDim_def\<close>)
    then show ?thesis using q cl_b n nb by auto
  next
    case pl
    have nb: "\<not> isBlocked a" "\<not> one_of (layoutType a) [nCsp16c, nCsp8c]"
      using pl by (simp_all add: isBlocked_def one_of_def)
    have n: "int ?n = axis a + 2 + (if spatialRank a \<noteq> 0 then 1 else 0)"
      using pl ax nb by (simp add: reshapedRank_def)
    from planar_branch_total[OF sh ax n, of "groupSize a" "spatialShapeSize a"]
    obtain q where q: "planar_branch a (groupSize a) (spatialShapeSize a) p = Inr q"
      and h: "holds q ?n es (swap_at (nat (axis a)))
       (\<lambda>k. if k < nat (axis a) then srcDims a ! k
            else if k = nat (axis a) then group a
            else if k = nat (axis a) + 1 then groupSize a else spatialShapeSize a)"
      by blast
    have "holds q ?n es (swap_at (decomposed_at a)) (src_extent a)"
      by (rule holds_cong[OF h])
         (use pl nb in \<open>simp_all add: src_extent_def decomposed_at_def\<close>)
    then show ?thesis using q pl nb by auto
  qed
qed

lemma decomposed_at_bound:
  assumes "well_formed a" and "offered a"
  shows "decomposed_at a + 1 < nat (reshapedRank a)"
proof -
  from assms(1) have ax: "0 \<le> axis a" "axis a < dataRank a"
    and sr: "spatialRank a = dataRank a - axis a - 1"
    by (simp_all add: well_formed_def)
  show ?thesis
  proof (cases "layoutType a = nspc")
    case True
    then have "axis a \<le> 1 \<Longrightarrow> spatialRank a \<noteq> 0"
      using assms(2) by (simp add: offered_def)
    then show ?thesis
      using True ax
      by (auto simp: decomposed_at_def reshapedRank_def isBlocked_def one_of_def channelDim_def)
  next
    case False
    then show ?thesis
      using ax
      by (auto simp: decomposed_at_def reshapedRank_def isBlocked_def one_of_def channelDim_def)
  qed
qed

lemma swap_at_less: "d + 1 < n \<Longrightarrow> k < n \<Longrightarrow> swap_at d k < n"
  by (simp add: swap_at_def)

lemma spatial_product_total:
  assumes "well_formed a"
  shows "(if spatialRank a \<noteq> 0
          then multiply_dims (srcDims a) (axis a + 1) (dataRank a) 1
          else Inr 1) = Inr (spatialShapeSize a)"
proof -
  from assms have ax: "0 \<le> axis a" "axis a < dataRank a"
    and dr: "dataRank a = int (length (srcDims a))"
    and sr: "spatialRank a = dataRank a - axis a - 1"
    by (simp_all add: well_formed_def)
  show ?thesis
  proof (cases "spatialRank a \<noteq> 0")
    case True
    have "multiply_dims (srcDims a) (axis a + 1) (dataRank a) 1 =
        Inr (fold (\<lambda>d s. size_t_mul s d)
              (drop (nat (axis a + 1)) (take (nat (dataRank a)) (srcDims a))) 1)"
      by (rule multiply_dims_total) (use ax dr in simp_all)
    then show ?thesis
      using True ax dr by (simp add: spatialShapeSize_def nat_add_distrib)
  next
    case False
    then have "length (srcDims a) \<le> nat (axis a) + 1" using sr dr ax by simp
    then show ?thesis using False by (simp add: spatialShapeSize_def)
  qed
qed

text \<open>
  On a well-formed bundle in one of the cases the constructor is written for, it returns
  this plan.
\<close>

lemma ShuffleChannelsExecutor_params_total:
  assumes wf: "well_formed a" and off: "offered a"
  shows "\<exists>p. ShuffleChannelsExecutor_params a = Inr p \<and>
     holds p (nat (reshapedRank a)) (dataSize a) (swap_at (decomposed_at a)) (src_extent a) \<and>
     src_block_order p = [0..<nat (reshapedRank a)] \<and>
     dst_block_order p = [0..<nat (reshapedRank a)] \<and>
     (\<forall>k < nat (reshapedRank a).
        dst_block_dims p ! k = src_extent a (swap_at (decomposed_at a) k))"
proof -
  let ?n = "nat (reshapedRank a)"
  from wf have ax: "0 \<le> axis a" "axis a < int (length (srcDims a))"
    and g: "0 < group a"
    and l: "one_of (layoutType a) [nCsp16c, nCsp8c, nspc, ncsp]"
    by (simp_all add: well_formed_def)
  have r: "0 \<le> reshapedRank a" using ax by (simp add: reshapedRank_def)
  from branch_total[OF wf off shaped_zero_params]
  obtain q where q: "(if one_of (layoutType a) [nCsp16c, nCsp8c]
           then blocked_branch a (groupSize a) (spatialShapeSize a) (zero_params a)
           else if layoutType a = nspc
           then channels_last_branch a (reshapedRank a) (groupSize a) (spatialShapeSize a)
                  (zero_params a)
           else planar_branch a (groupSize a) (spatialShapeSize a) (zero_params a)) = Inr q"
    and h: "holds q ?n (dataSize a) (swap_at (decomposed_at a)) (src_extent a)"
    by blast
  let ?q = "q\<lparr>src_block_order := [0..<length (src_block_order q)],
              dst_block_order := [0..<length (dst_block_order q)]\<rparr>"
  have h': "holds ?q ?n (dataSize a) (swap_at (decomposed_at a)) (src_extent a)"
    using h by (simp add: holds_def shaped_def)
  then have sh: "shaped ?n (dataSize a) ?q" by (simp add: holds_def)
  have lt: "\<forall>k < ?n. order ?q ! k < ?n"
    using h' swap_at_less[OF decomposed_at_bound[OF wf off]] by (simp add: holds_def)
  from fill_dst_block_dims_total[OF sh lt] r
  obtain p where p: "fill_dst_block_dims (reshapedRank a) ?q = Inr p" by auto
  note res = fill_dst_block_dims_result[OF p r]
  have e: "at (srcDims a) (axis a) = Inr (srcDims a ! nat (axis a))"
    using ax by (simp add: at_inside)
  have gs: "size_t_div (srcDims a ! nat (axis a)) (group a) = Inr (groupSize a)"
    using g by (simp add: size_t_div_def groupSize_def)
  have run: "ShuffleChannelsExecutor_params a = Inr p"
    unfolding ShuffleChannelsExecutor_params_unfold[OF l r]
    by (simp only: e gs chain_Inr spatial_product_total[OF wf] q p)
  have hp: "holds p ?n (dataSize a) (swap_at (decomposed_at a)) (src_extent a)"
    using h' res by (simp add: holds_def shaped_def same_but_dst_def)
  have bo: "src_block_order p = [0..<?n]" "dst_block_order p = [0..<?n]"
    using res h by (simp_all add: same_but_dst_def holds_def shaped_def)
  have "\<forall>k < ?n. dst_block_dims p ! k = src_extent a (swap_at (decomposed_at a) k)"
  proof (intro allI impI)
    fix k assume k: "k < ?n"
    then have "swap_at (decomposed_at a) k < ?n"
      by (rule swap_at_less[OF decomposed_at_bound[OF wf off]])
    then show "dst_block_dims p ! k = src_extent a (swap_at (decomposed_at a) k)"
      using res h' k by (simp add: holds_def)
  qed
  with run hp bo show ?thesis by blast
qed

lemma swap_at_involution: "swap_at d (swap_at d k) = k"
  by (simp add: swap_at_def)

lemma holds_order_permutation:
  assumes h: "holds p n es (swap_at d) fs" and d: "d + 1 < n"
  shows "length (order p) = n \<and> distinct (order p) \<and> set (order p) = {0..<n}"
proof -
  from h have l: "length (order p) = n" by (simp add: holds_def shaped_def)
  have o: "order p = map (swap_at d) [0..<n]"
    by (rule nth_equalityI) (use h l in \<open>simp_all add: holds_def\<close>)
  have inj: "inj (swap_at d)"
    by (rule inj_on_inverseI[where g = "swap_at d"]) (rule swap_at_involution)
  have "swap_at d ` {0..<n} = {0..<n}"
  proof (rule set_eqI, rule iffI)
    fix k assume "k \<in> swap_at d ` {0..<n}"
    then show "k \<in> {0..<n}" using swap_at_less[OF d] by auto
  next
    fix k assume "k \<in> {0..<n}"
    then have "swap_at d k \<in> {0..<n}" using swap_at_less[OF d] by simp
    then have "swap_at d (swap_at d k) \<in> swap_at d ` {0..<n}" by (rule imageI)
    then show "k \<in> swap_at d ` {0..<n}" by (simp add: swap_at_involution)
  qed
  then have "set (order p) = {0..<n}" by (simp add: o)
  moreover have "distinct (order p)"
    unfolding o by (simp add: distinct_map inj_on_subset[OF inj])
  ultimately show ?thesis using l by simp
qed

lemmas run_defs = ShuffleChannelsExecutor_params_def Let_def resize_def one_of_def reshapedRank_def
  chain_def at_def assign_def vec_back_def size_t_div_def size_t_mul_def size_t_of_int_def
  multiply_dims_def planar_branch_def blocked_branch_def channels_last_branch_def
  decomposeAndTranpose_def set_order_def set_src_block_dims_def set_dst_block_dims_def
  fill_dst_block_dims_def channelDim_def for_loop.simps

lemmas list_defs = eval_nat_numeral upt_rec

lemma planar_1422_run: "ShuffleChannelsExecutor_params planar_1422 = Inr planar_1422_plan"
  unfolding planar_1422_def planar_1422_plan_def
  apply (simp add: run_defs)
  apply (simp add: list_defs)
  done

lemma planar_1422_accepted: "accepted planar_1422 \<and> offered planar_1422"
  by (simp add: accepted_def well_formed_def offered_def isBlocked_def one_of_def planar_1422_def)

lemma blocked8_last_axis_run:
  "ShuffleChannelsExecutor_params blocked8_last_axis = Inr blocked8_last_axis_plan"
  unfolding blocked8_last_axis_def blocked8_last_axis_plan_def
  apply (simp add: run_defs)
  apply (simp add: list_defs)
  done

lemma channels_last_spatial_run:
  "ShuffleChannelsExecutor_params channels_last_spatial = Inr channels_last_spatial_plan"
  unfolding channels_last_spatial_def channels_last_spatial_plan_def
  apply (simp add: run_defs)
  apply (simp add: list_defs)
  done

lemmas exec_defs = exec_def execute_def execute_mb_def permute_def valid_plan_def src_bytes_def
  src_position_def

lemma upt_0_numeral: "[0..<numeral n] = 0 # [Suc 0..<numeral n]"
  by (simp add: upt_rec)

lemma upt_1_numeral:
  "[Suc 0..<numeral n] = (if Suc 0 < numeral n then Suc 0 # [2..<numeral n] else [])"
  by (subst upt_rec) (simp add: numeral_2_eq_2)

lemmas upt_numeral = upt_0_numeral upt_1_numeral

lemma planar_1422_positions:
  "map (src_position planar_1422_plan (dst_block_dims planar_1422_plan)) [0..<16] =
     [0, 1, 2, 3, 8, 9, 10, 11, 4, 5, 6, 7, 12, 13, 14, 15]"
  unfolding planar_1422_plan_def
  by (simp add: src_position_def upt_numeral)

lemma length_16E:
  assumes "length xs = 16"
  obtains x0 x1 x2 x3 x4 x5 x6 x7 x8 x9 x10 x11 x12 x13 x14 x15
  where "xs = [x0, x1, x2, x3, x4, x5, x6, x7, x8, x9, x10, x11, x12, x13, x14, x15]"
proof -
  have "map ((!) xs) [0..<16] = xs" using map_nth[of xs] assms by simp
  then have "xs = [xs ! 0, xs ! 1, xs ! 2, xs ! 3, xs ! 4, xs ! 5, xs ! 6, xs ! 7, xs ! 8, xs ! 9, xs ! 10, xs ! 11, xs ! 12, xs ! 13, xs ! 14, xs ! 15]"
    by (simp add: upt_numeral)
  then show ?thesis by (rule that)
qed

lemma planar_1422_executor_run: "ShuffleChannelsExecutor planar_1422 = Inr planar_1422_executor"
  by (simp add: ShuffleChannelsExecutor_def planar_1422_run planar_1422_executor_def)

subsection \<open>Executing the plan of a planar bundle\<close>

lemma length_strides [simp]: "length (strides xs) = length xs"
  by (induction xs) simp_all

lemma length_multi_index [simp]: "length (multi_index xs d) = length xs"
  by (induction xs) simp_all

lemma strides_append:
  "strides (xs @ ys) = map (\<lambda>s. s * prod_list ys) (strides xs) @ strides ys"
  by (induction xs) simp_all

lemma multi_index_append:
  "multi_index (xs @ ys) d = multi_index xs (d div prod_list ys) @ multi_index ys d"
  by (induction xs) (simp_all add: div_mult2_eq[symmetric] mult.commute)

text \<open>The digits of a position weigh up to the position (modulo the size of the array).\<close>

lemma mixed_radix:
  "sum_list (map2 (*) (multi_index xs d) (strides xs)) = d mod prod_list xs"
proof (induction xs)
  case Nil
  show ?case by simp
next
  case (Cons x xs)
  have "d mod (prod_list xs * x) = prod_list xs * (d div prod_list xs mod x) + d mod prod_list xs"
    by (rule mod_mult2_eq)
  with Cons show ?case by (simp add: mult.commute)
qed

lemma sum_list_map2_scaled:
  "length xs = length ys \<Longrightarrow>
   sum_list (map2 (*) xs (map (\<lambda>s. s * c) ys)) = sum_list (map2 (*) xs ys) * (c::nat)"
  by (induction xs ys rule: list_induct2) (simp_all add: algebra_simps)

lemma map2_nth_prefix:
  assumes "length xs = n" and "n \<le> length ss"
  shows "map2 (\<lambda>i k. i * (ss ! k)) xs [0..<n] = map2 (*) xs (take n ss)"
  by (rule nth_equalityI) (use assms in simp_all)

text \<open>
  The source position under a plan that carries a prefix through, exchanges two axes and
  keeps at most one trailing axis.
\<close>

lemma swapped_src_position:
  assumes s: "src_block_dims p = pre @ [x, y] @ rest"
    and o: "order p = [0..<length pre] @ [length pre + 1, length pre] @ orest"
    and t: "rest = [] \<and> orest = [] \<or> (\<exists>s. rest = [s] \<and> orest = [length pre + 2])"
  shows "src_position p (pre @ [y, x] @ rest) d =
           (d div (y * x * prod_list rest)) mod prod_list pre * (x * y * prod_list rest)
           + (d div prod_list rest) mod x * (y * prod_list rest)
           + (d div (x * prod_list rest)) mod y * prod_list rest
           + d mod prod_list rest"
proof -
  let ?T = "prod_list rest"
  let ?n = "length pre"
  let ?ss = "strides (pre @ [x, y] @ rest)"
  let ?f = "\<lambda>i k. i * (?ss ! k)"
  have ss: "?ss = map (\<lambda>s. s * (x * y * ?T)) (strides pre) @ [y * ?T, ?T] @ strides rest"
    by (simp add: strides_append)
  have mi: "multi_index (pre @ [y, x] @ rest) d =
      multi_index pre (d div (y * x * ?T)) @ [(d div (x * ?T)) mod y, (d div ?T) mod x]
        @ multi_index rest d"
    by (simp add: multi_index_append mult.assoc)
  have pre_part: "sum_list (map2 ?f (multi_index pre (d div (y * x * ?T))) [0..<?n]) =
      (d div (y * x * ?T)) mod prod_list pre * (x * y * ?T)"
  proof -
    have "map2 ?f (multi_index pre (d div (y * x * ?T))) [0..<?n] =
        map2 (*) (multi_index pre (d div (y * x * ?T))) (take ?n ?ss)"
      by (rule map2_nth_prefix) simp_all
    also have "take ?n ?ss = map (\<lambda>s. s * (x * y * ?T)) (strides pre)"
      by (subst ss) simp
    finally show ?thesis
      by (simp add: sum_list_map2_scaled mixed_radix)
  qed
  have n1: "?ss ! (?n + 1) = ?T" and n0: "?ss ! ?n = y * ?T"
    by (subst ss, simp add: nth_append)+
  have rest_part: "sum_list (map2 ?f (multi_index rest d) orest) = d mod ?T"
  proof -
    from t show ?thesis
    proof
      assume "rest = [] \<and> orest = []"
      then show ?thesis by simp
    next
      assume "\<exists>s. rest = [s] \<and> orest = [?n + 2]"
      then obtain s where e: "rest = [s]" "orest = [?n + 2]" by blast
      have "?ss ! (?n + 2) = 1" by (subst ss) (simp add: nth_append e)
      then show ?thesis by (simp add: e)
    qed
  qed
  have "src_position p (pre @ [y, x] @ rest) d =
      sum_list (map2 ?f
        (multi_index pre (d div (y * x * ?T)) @ [(d div (x * ?T)) mod y, (d div ?T) mod x]
           @ multi_index rest d)
        ([0..<?n] @ [?n + 1, ?n] @ orest))"
    unfolding src_position_def s o mi ..
  also have "\<dots> =
      sum_list (map2 ?f (multi_index pre (d div (y * x * ?T))) [0..<?n])
      + ((d div (x * ?T)) mod y * (?ss ! (?n + 1)) + ((d div ?T) mod x * (?ss ! ?n)
      + sum_list (map2 ?f (multi_index rest d) orest)))"
    by simp
  finally show ?thesis by (simp only: pre_part rest_part n1 n0 add.assoc)
qed

text \<open>Positions written in mixed radix, and their digits.\<close>

lemma digits:
  fixes B a b s g n T :: nat
  assumes "a < g" and "b < n" and "s < T"
  shows "(((B * g + a) * n + b) * T + s) mod T = s"
    and "(((B * g + a) * n + b) * T + s) div T mod n = b"
    and "(((B * g + a) * n + b) * T + s) div (n * T) mod g = a"
    and "(((B * g + a) * n + b) * T + s) div (g * n * T) = B"
proof -
  let ?v = "((B * g + a) * n + b) * T + s"
  show "?v mod T = s" using assms(3) by simp
  have 1: "?v div T = (B * g + a) * n + b" using assms(3) by simp
  then show "?v div T mod n = b" using assms(2) by simp
  have 2: "?v div (n * T) = B * g + a"
    using 1 assms(2) by (simp add: div_mult2_eq mult.commute[of n T])
  then show "?v div (n * T) mod g = a" using assms(1) by simp
  have "?v div (g * n * T) = ?v div (n * T) div g"
    by (simp add: div_mult2_eq mult.commute[of g "n * T"] mult.assoc)
  then show "?v div (g * n * T) = B" using 2 assms(1) by simp
qed

lemma digits_bound:
  fixes B a b s g n T P :: nat
  assumes "B < P" and "a < g" and "b < n" and "s < T"
  shows "((B * g + a) * n + b) * T + s < P * g * n * T"
proof -
  have "B * g + a < P * g"
  proof -
    have "B * g + a < (B + 1) * g" using assms(2) by simp
    also have "\<dots> \<le> P * g" using assms(1) by (intro mult_le_mono1) simp
    finally show ?thesis .
  qed
  then have "(B * g + a) * n + b < P * g * n"
  proof -
    assume l: "B * g + a < P * g"
    have "(B * g + a) * n + b < (B * g + a + 1) * n" using assms(3) by simp
    also have "\<dots> \<le> P * g * n" using l by (intro mult_le_mono1) simp
    finally show ?thesis .
  qed
  then show ?thesis
  proof -
    assume l: "(B * g + a) * n + b < P * g * n"
    have "((B * g + a) * n + b) * T + s < ((B * g + a) * n + b + 1) * T" using assms(4) by simp
    also have "\<dots> \<le> P * g * n * T" using l by (intro mult_le_mono1) simp
    finally show ?thesis .
  qed
qed

lemma digits_exist:
  fixes d g n T P :: nat
  assumes "d < P * g * n * T"
  obtains B a b s where "d = ((B * g + a) * n + b) * T + s"
    and "B < P" and "a < g" and "b < n" and "s < T"
proof -
  from assms have pos: "0 < T" "0 < n" "0 < g"
    by (auto intro: Nat.gr0I)
  let ?s = "d mod T" and ?b = "d div T mod n" and ?a = "d div T div n mod g"
    and ?B = "d div T div n div g"
  have "d = (((?B * g + ?a) * n + ?b) * T + ?s)" by simp
  moreover have "?B < P"
  proof -
    have "d < P * (g * (n * T))" using assms by (simp add: mult.assoc)
    then have "d div (T * n * g) < P"
      by (simp add: less_mult_imp_div_less mult.commute mult.left_commute)
    then show ?thesis by (simp add: div_mult2_eq)
  qed
  moreover have "?a < g" "?b < n" "?s < T" using pos by simp_all
  ultimately show ?thesis by (rule that)
qed

lemma swapped_position_digits:
  assumes "B < P" and "a < y" and "b < x" and "s < T"
  shows "swapped_position P x y T (((B * y + a) * x + b) * T + s) =
         ((B * x + b) * y + a) * T + s"
proof -
  note dg = digits[OF assms(2,3,4), of B]
  have "swapped_position P x y T (((B * y + a) * x + b) * T + s) =
     B mod P * (x * y * T) + b * (y * T) + a * T + s"
    unfolding swapped_position_def dg by (rule refl)
  then show ?thesis using assms(1) by (simp add: algebra_simps)
qed

lemma swapped_position_roundtrip:
  assumes "d < P * g * n * T"
  shows "swapped_position P n g T d < P * g * n * T"
    and "swapped_position P g n T (swapped_position P n g T d) = d"
proof -
  from assms obtain B a b s where d: "d = ((B * g + a) * n + b) * T + s"
    and l: "B < P" "a < g" "b < n" "s < T"
    by (rule digits_exist)
  have e': "swapped_position P n g T (((B * g + a) * n + b) * T + s) =
      ((B * n + b) * g + a) * T + s"
    using l by (rule swapped_position_digits)
  then have e: "swapped_position P n g T d = ((B * n + b) * g + a) * T + s"
    by (simp only: d)
  have "((B * n + b) * g + a) * T + s < P * n * g * T"
    using l(1) l(3) l(2) l(4) by (rule digits_bound)
  then show "swapped_position P n g T d < P * g * n * T"
    unfolding e by (simp add: mult.commute mult.left_commute)
  have "swapped_position P g n T (((B * n + b) * g + a) * T + s) =
      ((B * g + a) * n + b) * T + s"
    using l(1) l(3) l(2) l(4) by (rule swapped_position_digits)
  then show "swapped_position P g n T (swapped_position P n g T d) = d"
    by (simp only: d e')
qed

lemma gather_in_range:
  fixes f :: "nat \<Rightarrow> nat"
  assumes f: "\<And>d. d < tot \<Longrightarrow> f d < tot" and b: "b < es * tot"
  shows "f (b div es) * es + b mod es < es * tot"
proof -
  from b have es: "0 < es" by (auto intro: Nat.gr0I)
  have "b div es < tot"
    using b by (simp add: less_mult_imp_div_less mult.commute)
  then have l: "f (b div es) < tot" by (rule f)
  have "f (b div es) * es + b mod es < (f (b div es) + 1) * es" using es by simp
  also have "\<dots> \<le> tot * es" using l by (intro mult_le_mono1) simp
  finally show ?thesis by (simp add: mult.commute)
qed

text \<open>Executing a swapped plan on a buffer that holds the tensor.\<close>

lemma execute_swapped:
  assumes es: "data_size p = es"
    and s: "src_block_dims p = pre @ [x, y] @ rest"
    and d: "dst_block_dims p = pre @ [y, x] @ rest"
    and o: "order p = [0..<length pre] @ [length pre + 1, length pre] @ orest"
    and t: "rest = [] \<and> orest = [] \<or> (\<exists>s. rest = [s] \<and> orest = [length pre + 2])"
    and len: "length buf = es * (prod_list pre * y * x * prod_list rest)"
  shows "execute (PermuteKernel p) buf =
     Inr (map (\<lambda>b. buf ! (swapped_position (prod_list pre) x y (prod_list rest) (b div es) * es
                          + b mod es))
            [0..<es * (prod_list pre * y * x * prod_list rest)])"
proof -
  let ?P = "prod_list pre" and ?T = "prod_list rest"
  let ?tot = "?P * y * x * ?T"
  let ?f = "swapped_position ?P x y ?T"
  have pos: "src_position p (dst_block_dims p) k = ?f k" for k
    unfolding d swapped_position_def by (rule swapped_src_position[OF s o t])
  have pr: "prod_list (src_block_dims p) = ?tot" "prod_list (dst_block_dims p) = ?tot"
    by (simp_all add: s d mult.commute mult.left_commute)
  have lo: "length orest = length rest" using t by auto
  have v: "valid_plan p (dst_block_dims p)"
    using t by (auto simp: valid_plan_def s d o list_all_iff)
  have sb: "src_bytes p (dst_block_dims p) = map (\<lambda>b. ?f (b div es) * es + b mod es) [0..<es * ?tot]"
    by (simp add: src_bytes_def es pr pos)
  have bound: "?f k < ?tot" if "k < ?tot" for k
    using that by (rule swapped_position_roundtrip(1))
  have r: "list_all (\<lambda>i. i < length buf) (src_bytes p (dst_block_dims p))"
    unfolding sb len list_all_iff
  proof
    fix i
    assume "i \<in> set (map (\<lambda>b. ?f (b div es) * es + b mod es) [0..<es * ?tot])"
    then obtain b where b: "b < es * ?tot" and i: "i = ?f (b div es) * es + b mod es"
      by auto
    from bound b have "?f (b div es) * es + b mod es < es * ?tot"
      by (rule gather_in_range)
    then show "i < es * ?tot" by (simp only: i)
  qed
  have nl: "\<not> length buf < data_size p * prod_list (src_block_dims p)"
    by (simp add: es pr len)
  have "execute (PermuteKernel p) buf = Inr (map ((!) buf) (src_bytes p (dst_block_dims p)))"
    by (simp add: execute_def permute_def v r nl)
  then show ?thesis by (simp add: sb comp_def)
qed

text \<open>Copying elements of \<open>es\<close> bytes through \<open>f1\<close> and then through \<open>f2\<close>.\<close>

lemma gather_roundtrip:
  assumes len: "length buf = es * tot"
    and f: "\<And>d. d < tot \<Longrightarrow> f2 d < tot \<and> f1 (f2 d) = d"
  shows "map (\<lambda>b. map (\<lambda>b. buf ! (f1 (b div es) * es + b mod es)) [0..<es * tot]
                    ! (f2 (b div es) * es + b mod es)) [0..<es * tot] = buf"
proof (rule nth_equalityI)
  show "length (map (\<lambda>b. map (\<lambda>b. buf ! (f1 (b div es) * es + b mod es)) [0..<es * tot]
                    ! (f2 (b div es) * es + b mod es)) [0..<es * tot]) = length buf"
    using len by simp
next
  fix b
  assume "b < length (map (\<lambda>b. map (\<lambda>b. buf ! (f1 (b div es) * es + b mod es)) [0..<es * tot]
                    ! (f2 (b div es) * es + b mod es)) [0..<es * tot])"
  then have b: "b < es * tot" by simp
  then have es: "0 < es" by (auto intro: Nat.gr0I)
  have d: "b div es < tot"
    using b by (simp add: less_mult_imp_div_less mult.commute)
  from f[OF d] have f2: "f2 (b div es) < tot" and f12: "f1 (f2 (b div es)) = b div es"
    by simp_all
  let ?j = "f2 (b div es) * es + b mod es"
  have "?j < (f2 (b div es) + 1) * es" using es by simp
  also have "\<dots> \<le> tot * es" using f2 by (intro mult_le_mono1) simp
  finally have j: "?j < es * tot" by (simp add: mult.commute)
  have jd: "?j div es = f2 (b div es)" "?j mod es = b mod es" using es by simp_all
  have "map (\<lambda>b. buf ! (f1 (b div es) * es + b mod es)) [0..<es * tot] ! ?j =
      buf ! (f1 (?j div es) * es + ?j mod es)"
    using j by simp
  also have "\<dots> = buf ! b" by (simp only: jd f12) simp
  finally show "map (\<lambda>b. map (\<lambda>b. buf ! (f1 (b div es) * es + b mod es)) [0..<es * tot]
                    ! (f2 (b div es) * es + b mod es)) [0..<es * tot] ! b = buf ! b"
    using b by simp
qed

text \<open>Wrap-around of the folded extent: multiplying step by step wraps like the product.\<close>

lemma fold_size_t_mul:
  "acc < 2 ^ 64 \<Longrightarrow>
   fold (\<lambda>d s. size_t_mul s d) xs acc = (acc * prod_list xs) mod 2 ^ 64"
proof (induction xs arbitrary: acc)
  case Nil
  then show ?case by simp
next
  case (Cons x xs)
  have "size_t_mul acc x < 2 ^ 64" by (simp add: size_t_mul_def)
  from Cons.IH[OF this] show ?case
    by (simp add: size_t_mul_def mod_mult_left_eq mult.assoc)
qed

lemma spatialShapeSize_mod:
  "spatialShapeSize a = prod_list (drop (nat (axis a) + 1) (srcDims a)) mod 2 ^ 64"
  by (simp add: spatialShapeSize_def fold_size_t_mul)

text \<open>The plan of a planar bundle, as lists.\<close>

lemma planar_plan:
  assumes wf: "well_formed a" and pl: "layoutType a = ncsp"
  obtains p where "ShuffleChannelsExecutor_params a = Inr p"
    and "data_size p = dataSize a"
    and "src_block_dims p = take (nat (axis a)) (srcDims a) @ [group a, groupSize a]
           @ (if spatialRank a \<noteq> 0 then [spatialShapeSize a] else [])"
    and "dst_block_dims p = take (nat (axis a)) (srcDims a) @ [groupSize a, group a]
           @ (if spatialRank a \<noteq> 0 then [spatialShapeSize a] else [])"
    and "order p = [0..<nat (axis a)] @ [nat (axis a) + 1, nat (axis a)]
           @ (if spatialRank a \<noteq> 0 then [nat (axis a) + 2] else [])"
proof -
  let ?n = "nat (reshapedRank a)" and ?ax = "nat (axis a)"
  from wf have ax: "0 \<le> axis a" "axis a < int (length (srcDims a))"
    by (simp_all add: well_formed_def)
  have nb: "\<not> isBlocked a" "layoutType a \<noteq> nspc"
    using pl by (simp_all add: isBlocked_def one_of_def)
  then have off: "offered a" by (simp add: offered_def)
  have dp: "decomposed_at a = ?ax" using nb by (simp add: decomposed_at_def)
  have n: "?n = ?ax + 2 + (if spatialRank a \<noteq> 0 then 1 else 0)"
    using nb ax by (auto simp: reshapedRank_def isBlocked_def)
  have fs: "\<And>k. src_extent a k = (if k < ?ax then srcDims a ! k
         else if k = ?ax then group a
         else if k = ?ax + 1 then groupSize a
         else spatialShapeSize a)"
    using nb by (simp add: src_extent_def)
  from ShuffleChannelsExecutor_params_total[OF wf off]
  obtain p where p: "ShuffleChannelsExecutor_params a = Inr p"
    and h: "holds p ?n (dataSize a) (swap_at ?ax) (src_extent a)"
    and d: "\<forall>k < ?n. dst_block_dims p ! k = src_extent a (swap_at ?ax k)"
    unfolding dp by blast
  from h have l: "length (order p) = ?n" "length (src_block_dims p) = ?n"
    "length (dst_block_dims p) = ?n" "data_size p = dataSize a"
    and o: "\<And>k. k < ?n \<Longrightarrow> order p ! k = swap_at ?ax k"
    and s: "\<And>k. k < ?n \<Longrightarrow> src_block_dims p ! k = src_extent a k"
    by (simp_all add: holds_def shaped_def)
  have lt: "?ax < length (srcDims a)" using ax by simp
  have 1: "src_block_dims p = take ?ax (srcDims a) @ [group a, groupSize a]
           @ (if spatialRank a \<noteq> 0 then [spatialShapeSize a] else [])"
  proof (rule nth_equalityI)
    show "length (src_block_dims p) = length (take ?ax (srcDims a) @ [group a, groupSize a]
           @ (if spatialRank a \<noteq> 0 then [spatialShapeSize a] else []))"
      using l n lt by simp
  next
    fix k assume "k < length (src_block_dims p)"
    then have k: "k < ?n" using l by simp
    then have "k < ?ax \<or> k = ?ax \<or> k = ?ax + 1 \<or> k = ?ax + 2 \<and> spatialRank a \<noteq> 0"
      using n by (cases "spatialRank a = 0"; simp; arith)
    then consider "k < ?ax" | "k = ?ax" | "k = ?ax + 1" | "k = ?ax + 2" "spatialRank a \<noteq> 0"
      by blast
    then show "src_block_dims p ! k = (take ?ax (srcDims a) @ [group a, groupSize a]
           @ (if spatialRank a \<noteq> 0 then [spatialShapeSize a] else [])) ! k"
      using s[OF k] lt by cases (simp_all add: fs nth_append)
  qed
  have 2: "dst_block_dims p = take ?ax (srcDims a) @ [groupSize a, group a]
           @ (if spatialRank a \<noteq> 0 then [spatialShapeSize a] else [])"
  proof (rule nth_equalityI)
    show "length (dst_block_dims p) = length (take ?ax (srcDims a) @ [groupSize a, group a]
           @ (if spatialRank a \<noteq> 0 then [spatialShapeSize a] else []))"
      using l n lt by simp
  next
    fix k assume "k < length (dst_block_dims p)"
    then have k: "k < ?n" using l by simp
    then have "k < ?ax \<or> k = ?ax \<or> k = ?ax + 1 \<or> k = ?ax + 2 \<and> spatialRank a \<noteq> 0"
      using n by (cases "spatialRank a = 0"; simp; arith)
    then consider "k < ?ax" | "k = ?ax" | "k = ?ax + 1" | "k = ?ax + 2" "spatialRank a \<noteq> 0"
      by blast
    then show "dst_block_dims p ! k = (take ?ax (srcDims a) @ [groupSize a, group a]
           @ (if spatialRank a \<noteq> 0 then [spatialShapeSize a] else [])) ! k"
      using d k lt by cases (simp_all add: fs nth_append swap_at_def)
  qed
  have 3: "order p = [0..<?ax] @ [?ax + 1, ?ax]
           @ (if spatialRank a \<noteq> 0 then [?ax + 2] else [])"
  proof (rule nth_equalityI)
    show "length (order p) = length ([0..<?ax] @ [?ax + 1, ?ax]
           @ (if spatialRank a \<noteq> 0 then [?ax + 2] else []))"
      using l n by simp
  next
    fix k assume "k < length (order p)"
    then have k: "k < ?n" using l by simp
    then have "k < ?ax \<or> k = ?ax \<or> k = ?ax + 1 \<or> k = ?ax + 2 \<and> spatialRank a \<noteq> 0"
      using n by (cases "spatialRank a = 0"; simp; arith)
    then consider "k < ?ax" | "k = ?ax" | "k = ?ax + 1" | "k = ?ax + 2" "spatialRank a \<noteq> 0"
      by blast
    then show "order p ! k = ([0..<?ax] @ [?ax + 1, ?ax]
           @ (if spatialRank a \<noteq> 0 then [?ax + 2] else [])) ! k"
      using o[OF k] by cases (simp_all add: nth_append swap_at_def)
  qed
  from p l(4) 1 2 3 show ?thesis by (rule that)
qed

lemma prod_list_split_at:
  "k < length xs \<Longrightarrow>
   prod_list xs = prod_list (take k xs) * xs ! k * prod_list (drop (k + 1) xs)"
  for xs :: "nat list"
proof -
  assume "k < length xs"
  then have "xs = take k xs @ xs ! k # drop (k + 1) xs"
    by (simp add: id_take_nth_drop)
  then have "prod_list xs = prod_list (take k xs @ xs ! k # drop (k + 1) xs)" by simp
  then show ?thesis by (simp add: mult.assoc)
qed

text \<open>
  The plan of a planar bundle covers the tensor: its extents multiply to the number of
  elements, as long as the byte size of the tensor fits \<^verbatim>\<open>size_t\<close>.
\<close>

lemma planar_size:
  assumes wf: "well_formed a"
    and dv: "group a dvd srcDims a ! nat (axis a)"
    and fit: "dataSize a * prod_list (srcDims a) < 2 ^ 64"
  shows "dataSize a * (prod_list (take (nat (axis a)) (srcDims a)) * group a * groupSize a
            * prod_list (if spatialRank a \<noteq> 0 then [spatialShapeSize a] else []))
         = dataSize a * prod_list (srcDims a)"
proof -
  let ?ax = "nat (axis a)"
  let ?P = "prod_list (take ?ax (srcDims a))" and ?C = "srcDims a ! ?ax"
    and ?F = "prod_list (drop (?ax + 1) (srcDims a))"
    and ?T = "prod_list (if spatialRank a \<noteq> 0 then [spatialShapeSize a] else [])"
  from wf have ax: "0 \<le> axis a" "axis a < int (length (srcDims a))"
    and dr: "dataRank a = int (length (srcDims a))"
    and sr: "spatialRank a = dataRank a - axis a - 1"
    by (simp_all add: well_formed_def)
  have lt: "?ax < length (srcDims a)" using ax by simp
  have pr: "prod_list (srcDims a) = ?P * ?C * ?F" using lt by (rule prod_list_split_at)
  have c: "group a * groupSize a = ?C" using dv by (simp add: groupSize_def)
  have t: "dataSize a * ?P * ?C * ?T = dataSize a * ?P * ?C * ?F"
  proof (cases "dataSize a * ?P * ?C = 0")
    case True
    then show ?thesis by simp
  next
    case False
    then have "?F \<le> dataSize a * ?P * ?C * ?F" by simp
    also have "\<dots> < 2 ^ 64" using fit pr by (simp add: mult.assoc)
    finally have f: "?F mod 2 ^ 64 = ?F" by simp
    show ?thesis
    proof (cases "spatialRank a \<noteq> 0")
      case True
      then show ?thesis using f by (simp add: spatialShapeSize_mod)
    next
      case False
      then have "drop (?ax + 1) (srcDims a) = []" using sr dr ax by simp
      then show ?thesis using False by simp
    qed
  qed
  have "dataSize a * (?P * group a * groupSize a * ?T) = dataSize a * ?P * ?C * ?T"
    using c by (simp add: mult.assoc)
  also have "\<dots> = dataSize a * prod_list (srcDims a)"
    using t pr by (simp add: mult.assoc)
  finally show ?thesis .
qed

text \<open>
  Outside those cases: channels last of rank 2 shuffled along axis 1 has no spatial axis,
  the rank is 3, and \<^verbatim>\<open>decomposeAndTranpose(2)\<close> writes position 3.
\<close>

lemma channels_last_rank_2_out_of_bounds:
  "ShuffleChannelsExecutor_params
     \<lparr>layoutType = nspc, dataRank = 2, axis = 1, spatialRank = 0, group = 2,
      dataSize = 4, srcDims = [1, 16], srcBlockedDims = [1, 16]\<rparr> = Inl OutOfBounds"
  by (simp add: run_defs)

text \<open>
  A blocked layout shuffled along its last axis: the position after the two decomposed
  axes holds the block size, \<^verbatim>\<open>spatialShapeSize * blkSize\<close> with an empty spatial product.
\<close>

lemma blocked_trailing_extent:
  assumes wf: "well_formed a" and off: "offered a"
    and blk: "layoutType a = nCsp16c \<or> layoutType a = nCsp8c"
    and sr: "spatialRank a = 0" and ax: "1 < axis a"
    and run: "ShuffleChannelsExecutor_params a = Inr p"
  shows "order p ! (nat (axis a) + 2) = nat (axis a) + 2"
    and "last (src_block_dims p) = last (srcBlockedDims a) mod 2 ^ 64"
    and "last (dst_block_dims p) = last (srcBlockedDims a) mod 2 ^ 64"
proof -
  let ?n = "nat (reshapedRank a)"
  let ?k = "nat (axis a) + 2"
  from ShuffleChannelsExecutor_params_total[OF wf off] run
  have h: "holds p ?n (dataSize a) (swap_at (decomposed_at a)) (src_extent a)"
    and d: "\<forall>k < ?n. dst_block_dims p ! k = src_extent a (swap_at (decomposed_at a) k)"
    by auto
  have ib: "isBlocked a" using blk by (auto simp: isBlocked_def one_of_def)
  have n: "?n = nat (axis a) + 3"
    using blk sr ax by (auto simp: reshapedRank_def one_of_def)
  have k: "?k < ?n" using n by simp
  have len: "length (srcDims a) = nat (axis a) + 1"
    using wf sr ax unfolding well_formed_def by linarith
  have sp: "spatialShapeSize a = 1" by (simp add: spatialShapeSize_def len)
  have da: "decomposed_at a = nat (axis a)"
    using ib ax by (simp add: decomposed_at_def channelDim_def)
  have sw: "swap_at (decomposed_at a) ?k = ?k" by (simp add: da swap_at_def)
  have ext: "src_extent a ?k = last (srcBlockedDims a) mod 2 ^ 64"
    using ib ax by (simp add: src_extent_def channelDim_def sp size_t_mul_def)
  have l: "length (src_block_dims p) = ?n" "length (dst_block_dims p) = ?n"
    using h by (simp_all add: holds_def shaped_def)
  have ls: "last (src_block_dims p) = src_block_dims p ! ?k"
    using l n by (subst last_conv_nth) auto
  have ld: "last (dst_block_dims p) = dst_block_dims p ! ?k"
    using l n by (subst last_conv_nth) auto
  show "order p ! ?k = ?k" using h k sw by (simp add: holds_def)
  show "last (src_block_dims p) = last (srcBlockedDims a) mod 2 ^ 64"
    using h k ext ls by (simp add: holds_def)
  show "last (dst_block_dims p) = last (srcBlockedDims a) mod 2 ^ 64"
    using d k ext sw ld by simp
qed

section \<open>The claims\<close>

text \<open>
  Claim C1, as amended.  For every accepted bundle in one of the cases the constructor is
  written for (a blocked layout only with an axis other than 1, channels last with axis 0 or
  1 only when a spatial axis remains) the constructor returns a plan whose \<open>order\<close> is a
  permutation of \<open>[0, reshapedRank)\<close>: it has \<open>reshapedRank\<close> entries, no entry occurs
  twice, and its entries are exactly the indices below \<open>reshapedRank\<close>.
\<close>

theorem order_is_permutation:
  assumes "accepted a" and "offered a"
  shows "\<exists>p. ShuffleChannelsExecutor_params a = Inr p \<and>
              length (order p) = nat (reshapedRank a) \<and>
              distinct (order p) \<and> set (order p) = {0..<nat (reshapedRank a)}"
proof -
  from assms have wf: "well_formed a" by (simp add: accepted_def)
  from ShuffleChannelsExecutor_params_total[OF wf assms(2)]
  obtain p where "ShuffleChannelsExecutor_params a = Inr p"
    and "holds p (nat (reshapedRank a)) (dataSize a) (swap_at (decomposed_at a)) (src_extent a)"
    by blast
  then show ?thesis
    using holds_order_permutation decomposed_at_bound[OF wf assms(2)] by blast
qed

text \<open>The theorem at the planar bundle of shape \<open>[1, 4, 2, 2]\<close>.\<close>

theorem order_is_permutation_witness:
  "accepted planar_1422 \<and> offered planar_1422 \<and>
   ShuffleChannelsExecutor_params planar_1422 = Inr planar_1422_plan \<and>
   distinct (order planar_1422_plan) \<and> set (order planar_1422_plan) = {0..<4}"
  using order_is_permutation[of planar_1422] planar_1422_accepted planar_1422_run
  by (simp add: planar_1422_def reshapedRank_def one_of_def)

text \<open>
  Claim C1 as stated fails on a bundle the constructor accepts: layout blocked by 8, axis 1,
  group 2 dividing the 16 channels.  The branch for the blocked layouts treats every axis
  that is not above the channel axis as the batch axis and writes the positions 0, 1 and 2
  only, while the rank is \<open>axis + 3 = 4\<close>: position 3 keeps the 0 that \<^verbatim>\<open>resize\<close> put there,
  so 0 occurs twice in the order and 3 does not occur.
\<close>

theorem order_not_permutation_blocked_axis_1:
  "accepted blocked8_axis_1 \<and>
   ShuffleChannelsExecutor_params blocked8_axis_1 =
     Inr \<lparr>src_block_dims = [2, 8, 64, 0], dst_block_dims = [8, 2, 64, 2],
          src_block_order = [0, 1, 2, 3], dst_block_order = [0, 1, 2, 3],
          order = [1, 0, 2, 0], data_size = 4\<rparr>
   \<and> reshapedRank blocked8_axis_1 = 4
   \<and> \<not> distinct [1, 0, 2, 0 :: nat] \<and> 3 \<notin> set [1, 0, 2, 0 :: nat]"
proof -
  have "accepted blocked8_axis_1" "reshapedRank blocked8_axis_1 = 4"
    by (simp_all add: accepted_def well_formed_def isBlocked_def one_of_def reshapedRank_def
        blocked8_axis_1_def)
  moreover have "ShuffleChannelsExecutor_params blocked8_axis_1 =
     Inr \<lparr>src_block_dims = [2, 8, 64, 0], dst_block_dims = [8, 2, 64, 2],
          src_block_order = [0, 1, 2, 3], dst_block_order = [0, 1, 2, 3],
          order = [1, 0, 2, 0], data_size = 4\<rparr>"
    unfolding blocked8_axis_1_def
    apply (simp add: run_defs)
    apply (simp add: list_defs)
    done
  ultimately show ?thesis by simp
qed

text \<open>
  Claim C2 as stated fails: the constructor has no divisibility check.  With three
  channels and group 2 it returns a plan, the decomposed extents being 2 and \<open>3 div 2 = 1\<close>.
\<close>

theorem nondivisible_group_builds_a_plan:
  "srcDims planar_nondivisible ! nat (axis planar_nondivisible) mod group planar_nondivisible \<noteq> 0
   \<and> ShuffleChannelsExecutor_params planar_nondivisible =
       Inr \<lparr>src_block_dims = [1, 2, 1, 4], dst_block_dims = [1, 1, 2, 4],
            src_block_order = [0, 1, 2, 3], dst_block_order = [0, 1, 2, 3],
            order = [0, 2, 1, 3], data_size = 4\<rparr>"
  unfolding planar_nondivisible_def
  apply (simp add: run_defs)
  apply (simp add: list_defs)
  done

text \<open>
  Claim C2, as amended.  For every bundle with a supported layout tag, \<open>0 \<le> axis < rank\<close>
  and a positive group (a blocked layout only with an axis other than 1, channels last with
  axis 0 or 1 only when a spatial axis remains), building the plan succeeds whether or not the
  group divides the extent at the axis; the two decomposed extents of the plan are the
  group and the integer quotient of the extent by the group.  The failure the constructor
  does raise is the one for a layout tag that is none of the four.
\<close>

theorem divisibility_not_checked:
  assumes "well_formed a" and "offered a"
  shows "(\<exists>p. ShuffleChannelsExecutor_params a = Inr p \<and>
              src_block_dims p ! decomposed_at a = group a \<and>
              src_block_dims p ! (decomposed_at a + 1) = srcDims a ! nat (axis a) div group a) \<and>
         ShuffleChannelsExecutor_params (a\<lparr>layoutType := unsupported_layout\<rparr>)
           = Inl UnsupportedLayout"
proof -
  have u: "ShuffleChannelsExecutor_params (a\<lparr>layoutType := unsupported_layout\<rparr>)
             = Inl UnsupportedLayout"
    by (simp add: ShuffleChannelsExecutor_params_def one_of_def)
  from ShuffleChannelsExecutor_params_total[OF assms]
  obtain p where p: "ShuffleChannelsExecutor_params a = Inr p"
    and h: "holds p (nat (reshapedRank a)) (dataSize a) (swap_at (decomposed_at a)) (src_extent a)"
    by blast
  note b = decomposed_at_bound[OF assms]
  from assms(1) have ax: "0 \<le> axis a" by (simp add: well_formed_def)
  have "src_extent a (decomposed_at a) = group a"
    "src_extent a (decomposed_at a + 1) = groupSize a"
    using ax by (auto simp: src_extent_def decomposed_at_def channelDim_def)
  moreover have "src_block_dims p ! decomposed_at a = src_extent a (decomposed_at a)"
    "src_block_dims p ! (decomposed_at a + 1) = src_extent a (decomposed_at a + 1)"
    using h b by (simp_all add: holds_def)
  ultimately show ?thesis using p u by (auto simp: groupSize_def)
qed

text \<open>The theorem at a bundle whose group does not divide the extent.\<close>

theorem divisibility_not_checked_witness:
  "\<not> group planar_nondivisible dvd srcDims planar_nondivisible ! nat (axis planar_nondivisible) \<and>
   (\<exists>p. ShuffleChannelsExecutor_params planar_nondivisible = Inr p \<and>
        src_block_dims p ! decomposed_at planar_nondivisible = 2 \<and>
        src_block_dims p ! (decomposed_at planar_nondivisible + 1) = 1)"
proof -
  have w: "well_formed planar_nondivisible" "offered planar_nondivisible"
    by (simp_all add: well_formed_def offered_def isBlocked_def one_of_def planar_nondivisible_def)
  have nd: "\<not> group planar_nondivisible dvd
      srcDims planar_nondivisible ! nat (axis planar_nondivisible)"
    by (simp add: planar_nondivisible_def)
  have g: "group planar_nondivisible = 2"
    "srcDims planar_nondivisible ! nat (axis planar_nondivisible) div 2 = 1"
    by (simp_all add: planar_nondivisible_def)
  from divisibility_not_checked[OF w] nd g show ?thesis by simp
qed

text \<open>
  Claim C3, as amended.  The constructor returns a plan on every accepted bundle in one of
  the cases it is written for, and whenever it returns a plan, the working rank of the plan
  (the number of entries of its order and of its two extent vectors) is
  \<open>axis + 2 + (1 if spatialRank \<noteq> 0) + (1 if the layout is blocked and spatialRank = 0)\<close>;
  for the layout blocked by 8 with no spatial axis that is \<open>axis + 3\<close>.  The extra trailing
  axis of a blocked layout with no spatial axis (and an axis beyond the channels) stays in
  place and has the extent \<^verbatim>\<open>spatialShapeSize * blkSize\<close> with \<^verbatim>\<open>spatialShapeSize = 1\<close>, that
  is the block size \<^verbatim>\<open>srcBlockedDims.back()\<close> as a 64-bit value, in the source and in the
  destination extents; it is not 1.
\<close>

theorem working_rank:
  "(accepted a \<and> offered a \<longrightarrow> (\<exists>p. ShuffleChannelsExecutor_params a = Inr p)) \<and>
   (ShuffleChannelsExecutor_params a = Inr p \<longrightarrow>
      int (length (order p)) =
        axis a + 2 + (if spatialRank a \<noteq> 0 then 1 else 0)
          + (if (layoutType a = nCsp16c \<or> layoutType a = nCsp8c) \<and> spatialRank a = 0
             then 1 else 0)
      \<and> length (src_block_dims p) = length (order p)
      \<and> length (dst_block_dims p) = length (order p)
      \<and> (layoutType a = nCsp8c \<and> spatialRank a = 0 \<longrightarrow>
           int (length (order p)) = axis a + 3)
      \<and> (accepted a \<and> offered a \<and> (layoutType a = nCsp16c \<or> layoutType a = nCsp8c)
           \<and> spatialRank a = 0 \<and> 1 < axis a \<longrightarrow>
           order p ! (nat (axis a) + 2) = nat (axis a) + 2
           \<and> last (src_block_dims p) = last (srcBlockedDims a) mod 2 ^ 64
           \<and> last (dst_block_dims p) = last (srcBlockedDims a) mod 2 ^ 64))"
proof (intro conjI impI)
  assume "accepted a \<and> offered a"
  then have "well_formed a" "offered a" by (simp_all add: accepted_def)
  from ShuffleChannelsExecutor_params_total[OF this]
  show "\<exists>p. ShuffleChannelsExecutor_params a = Inr p" by blast
next
  assume run: "ShuffleChannelsExecutor_params a = Inr p"
  then have r: "0 \<le> reshapedRank a"
    by (rule ShuffleChannelsExecutor_params_run)
  from ShuffleChannelsExecutor_params_shaped[OF run]
  have l: "length (order p) = nat (reshapedRank a)"
    "length (src_block_dims p) = nat (reshapedRank a)"
    "length (dst_block_dims p) = nat (reshapedRank a)"
    by (simp_all add: shaped_def)
  show "int (length (order p)) =
        axis a + 2 + (if spatialRank a \<noteq> 0 then 1 else 0)
          + (if (layoutType a = nCsp16c \<or> layoutType a = nCsp8c) \<and> spatialRank a = 0
             then 1 else 0)"
    using l r by (auto simp: reshapedRank_def one_of_def)
  show "length (src_block_dims p) = length (order p)"
    "length (dst_block_dims p) = length (order p)"
    using l by simp_all
  {
    assume "layoutType a = nCsp8c \<and> spatialRank a = 0"
    then show "int (length (order p)) = axis a + 3"
      using l r by (auto simp: reshapedRank_def one_of_def)
  }
  assume b: "accepted a \<and> offered a \<and> (layoutType a = nCsp16c \<or> layoutType a = nCsp8c)
           \<and> spatialRank a = 0 \<and> 1 < axis a"
  then have wf: "well_formed a" and off: "offered a"
    and blk: "layoutType a = nCsp16c \<or> layoutType a = nCsp8c"
    and sr: "spatialRank a = 0" and ax: "1 < axis a"
    by (simp_all add: accepted_def)
  note t = blocked_trailing_extent[OF wf off blk sr ax run]
  show "order p ! (nat (axis a) + 2) = nat (axis a) + 2" by (rule t(1))
  show "last (src_block_dims p) = last (srcBlockedDims a) mod 2 ^ 64" by (rule t(2))
  show "last (dst_block_dims p) = last (srcBlockedDims a) mod 2 ^ 64" by (rule t(3))
qed

text \<open>
  The theorem at a bundle blocked by 8 with no spatial axis: axis 3, rank 6, trailing
  extent 8.
\<close>

theorem working_rank_witness:
  "accepted blocked8_last_axis \<and> offered blocked8_last_axis \<and>
   ShuffleChannelsExecutor_params blocked8_last_axis = Inr blocked8_last_axis_plan \<and>
   layoutType blocked8_last_axis = nCsp8c \<and> spatialRank blocked8_last_axis = 0 \<and>
   axis blocked8_last_axis = 3 \<and> length (order blocked8_last_axis_plan) = 6 \<and>
   last (srcBlockedDims blocked8_last_axis) = 8 \<and>
   last (src_block_dims blocked8_last_axis_plan) = 8 \<and>
   last (dst_block_dims blocked8_last_axis_plan) = 8"
proof -
  have a: "accepted blocked8_last_axis" "offered blocked8_last_axis"
    "layoutType blocked8_last_axis = nCsp8c" "spatialRank blocked8_last_axis = 0"
    "axis blocked8_last_axis = 3" "last (srcBlockedDims blocked8_last_axis) = 8"
    by (simp_all add: accepted_def well_formed_def offered_def isBlocked_def one_of_def
        blocked8_last_axis_def)
  from working_rank[of blocked8_last_axis blocked8_last_axis_plan] blocked8_last_axis_run a
  have "length (order blocked8_last_axis_plan) = 6"
    "last (src_block_dims blocked8_last_axis_plan) = 8"
    "last (dst_block_dims blocked8_last_axis_plan) = 8" by simp_all
  with a blocked8_last_axis_run show ?thesis by simp
qed

text \<open>
  Claim C3 as stated also gives the extra trailing axis the extent 1.  For the layout
  blocked by 8, shape \<open>[1, 16, 2, 4]\<close>, shuffled along its last axis with group 2, the plan has
  rank \<open>axis + 3 = 6\<close> and its trailing extent is the block size 8.
\<close>

theorem blocked8_trailing_extent_not_1:
  "accepted blocked8_last_axis \<and> offered blocked8_last_axis \<and>
   layoutType blocked8_last_axis = nCsp8c \<and> spatialRank blocked8_last_axis = 0 \<and>
   (\<exists>p. ShuffleChannelsExecutor_params blocked8_last_axis = Inr p \<and>
        int (length (src_block_dims p)) = axis blocked8_last_axis + 3 \<and>
        src_block_dims p = [1, 2, 2, 2, 2, 8] \<and>
        last (src_block_dims p) = 8 \<and> last (src_block_dims p) \<noteq> 1 \<and>
        last (dst_block_dims p) = 8)"
proof -
  have a: "accepted blocked8_last_axis" "offered blocked8_last_axis"
    "layoutType blocked8_last_axis = nCsp8c" "spatialRank blocked8_last_axis = 0"
    by (simp_all add: accepted_def well_formed_def offered_def isBlocked_def one_of_def
        blocked8_last_axis_def)
  have "int (length (src_block_dims blocked8_last_axis_plan)) = axis blocked8_last_axis + 3"
    "src_block_dims blocked8_last_axis_plan = [1, 2, 2, 2, 2, 8]"
    "last (src_block_dims blocked8_last_axis_plan) = 8"
    "last (dst_block_dims blocked8_last_axis_plan) = 8"
    by (simp_all add: blocked8_last_axis_plan_def blocked8_last_axis_def)
  with a blocked8_last_axis_run show ?thesis by simp
qed

text \<open>
  Claim C4.  For the planar bundle of shape \<open>[1, 4, 2, 2]\<close>, axis 1, group 2 and four bytes
  per element, the constructor returns an executor, and executing it on a buffer that
  holds the four channels \<open>c0, c1, c2, c3\<close> (16 bytes each) yields the buffer
  \<open>c0, c2, c1, c3\<close>, every channel byte for byte; both without a batch override and with
  the batch 1 of the shape.
\<close>

theorem planar_1422_channel_order:
  assumes "length c0 = 16" and "length c1 = 16" and "length c2 = 16" and "length c3 = 16"
  shows "ShuffleChannelsExecutor planar_1422 = Inr planar_1422_executor \<and>
         exec planar_1422_executor (c0 @ c1 @ c2 @ c3) (- 1) = Inr (c0 @ c2 @ c1 @ c3) \<and>
         exec planar_1422_executor (c0 @ c1 @ c2 @ c3) 1 = Inr (c0 @ c2 @ c1 @ c3)"
proof -
  from assms(1) obtain a0 a1 a2 a3 a4 a5 a6 a7 a8 a9 a10 a11 a12 a13 a14 a15
    where c0: "c0 = [a0, a1, a2, a3, a4, a5, a6, a7, a8, a9, a10, a11, a12, a13, a14, a15]"
    by (rule length_16E)
  from assms(2) obtain b0 b1 b2 b3 b4 b5 b6 b7 b8 b9 b10 b11 b12 b13 b14 b15
    where c1: "c1 = [b0, b1, b2, b3, b4, b5, b6, b7, b8, b9, b10, b11, b12, b13, b14, b15]"
    by (rule length_16E)
  from assms(3) obtain d0 d1 d2 d3 d4 d5 d6 d7 d8 d9 d10 d11 d12 d13 d14 d15
    where c2: "c2 = [d0, d1, d2, d3, d4, d5, d6, d7, d8, d9, d10, d11, d12, d13, d14, d15]"
    by (rule length_16E)
  from assms(4) obtain e0 e1 e2 e3 e4 e5 e6 e7 e8 e9 e10 e11 e12 e13 e14 e15
    where c3: "c3 = [e0, e1, e2, e3, e4, e5, e6, e7, e8, e9, e10, e11, e12, e13, e14, e15]"
    by (rule length_16E)
  have "exec planar_1422_executor (c0 @ c1 @ c2 @ c3) (- 1) = Inr (c0 @ c2 @ c1 @ c3)"
    unfolding c0 c1 c2 c3 planar_1422_executor_def planar_1422_plan_def
    by (simp add: exec_defs upt_numeral)
  moreover have "exec planar_1422_executor (c0 @ c1 @ c2 @ c3) 1 = Inr (c0 @ c2 @ c1 @ c3)"
    unfolding c0 c1 c2 c3 planar_1422_executor_def planar_1422_plan_def
    by (simp add: exec_defs upt_numeral)
  ultimately show ?thesis using planar_1422_executor_run by simp
qed

text \<open>The theorem on the buffer of the bytes 0 to 63.\<close>

theorem planar_1422_channel_order_witness:
  "exec planar_1422_executor ([0..<16] @ [16..<32] @ [32..<48] @ [48..<64]) (- 1)
     = Inr ([0..<16] @ [32..<48] @ [16..<32] @ [48..<64])"
  using planar_1422_channel_order[of "[0..<16]" "[16..<32]" "[32..<48]" "[48..<64]"]
  by simp

text \<open>
  Claim C5.  For every accepted planar bundle whose inverse configuration (the same shape and
  axis, the group \<open>C div g\<close> for the extent \<open>C\<close> at the axis and the group \<open>g\<close>) is an accepted
  bundle as well, and every buffer that holds the tensor (its byte size fitting \<^verbatim>\<open>size_t\<close>):
  the constructor returns an executor for both bundles, and executing the first on the
  buffer and then the second on the result returns the buffer, byte for byte.
\<close>

theorem shuffle_then_inverse_restores:
  assumes acc: "accepted a" and pl: "layoutType a = ncsp"
    and acc': "accepted (inverse_configuration a)"
    and len: "length buf = dataSize a * prod_list (srcDims a)"
    and fit: "dataSize a * prod_list (srcDims a) < 2 ^ 64"
  shows "\<exists>e e' mid. ShuffleChannelsExecutor a = Inr e \<and>
           ShuffleChannelsExecutor (inverse_configuration a) = Inr e' \<and>
           exec e buf (- 1) = Inr mid \<and> exec e' mid (- 1) = Inr buf"
proof -
  let ?a' = "inverse_configuration a"
  let ?ax = "nat (axis a)" and ?es = "dataSize a"
  let ?pre = "take ?ax (srcDims a)"
  let ?rest = "if spatialRank a \<noteq> 0 then [spatialShapeSize a] else []"
  let ?orest = "if spatialRank a \<noteq> 0 then [?ax + 2] else []"
  let ?g = "group a" and ?n = "groupSize a"
  let ?P = "prod_list ?pre" and ?T = "prod_list ?rest"
  let ?tot = "?P * ?g * ?n * ?T"
  from acc have wf: "well_formed a" and dv: "?g dvd srcDims a ! ?ax"
    by (simp_all add: accepted_def)
  from acc' have wf': "well_formed ?a'" by (simp add: accepted_def)
  have g': "group ?a' = ?n" by (simp add: inverse_configuration_def groupSize_def)
  have npos: "0 < ?n" using wf' g' by (simp add: well_formed_def)
  have gpos: "0 < ?g" using wf by (simp add: well_formed_def)
  have n': "groupSize ?a' = ?g"
  proof -
    from dv obtain k where k: "srcDims a ! ?ax = ?g * k" by (rule dvdE)
    then have "?n = k" using gpos by (simp add: groupSize_def)
    then have "srcDims a ! ?ax div ?n = ?g" using k npos by simp
    then show ?thesis by (simp add: inverse_configuration_def groupSize_def)
  qed
  have same: "axis ?a' = axis a" "srcDims ?a' = srcDims a" "dataSize ?a' = dataSize a"
    "spatialRank ?a' = spatialRank a" "spatialShapeSize ?a' = spatialShapeSize a"
    "layoutType ?a' = ncsp"
    using pl by (simp_all add: inverse_configuration_def spatialShapeSize_def)
  from planar_plan[OF wf pl] obtain p where
    p: "ShuffleChannelsExecutor_params a = Inr p" and es: "data_size p = ?es"
    and src: "src_block_dims p = ?pre @ [?g, ?n] @ ?rest"
    and dst: "dst_block_dims p = ?pre @ [?n, ?g] @ ?rest"
    and ord: "order p = [0..<?ax] @ [?ax + 1, ?ax] @ ?orest"
    by blast
  from planar_plan[OF wf' same(6)] obtain p' where
    p': "ShuffleChannelsExecutor_params ?a' = Inr p'" and es': "data_size p' = ?es"
    and src': "src_block_dims p' = ?pre @ [?n, ?g] @ ?rest"
    and dst': "dst_block_dims p' = ?pre @ [?g, ?n] @ ?rest"
    and ord': "order p' = [0..<?ax] @ [?ax + 1, ?ax] @ ?orest"
    unfolding same g' n' by blast
  have lp: "length ?pre = ?ax" using wf by (auto simp: well_formed_def)
  have t: "?rest = [] \<and> ?orest = [] \<or> (\<exists>s. ?rest = [s] \<and> ?orest = [length ?pre + 2])"
    using lp by simp
  have size: "length buf = ?es * ?tot"
    unfolding planar_size[OF wf dv fit] by (rule len)
  let ?mid = "map (\<lambda>b. buf ! (swapped_position ?P ?g ?n ?T (b div ?es) * ?es + b mod ?es))
                [0..<?es * ?tot]"
  have o1: "order p = [0..<length ?pre] @ [length ?pre + 1, length ?pre] @ ?orest"
    and o1': "order p' = [0..<length ?pre] @ [length ?pre + 1, length ?pre] @ ?orest"
    by (simp_all only: ord ord' lp)
  have run1: "execute (PermuteKernel p) buf = Inr ?mid"
  proof -
    have e: "?P * ?n * ?g * ?T = ?tot" by (simp add: ac_simps)
    have l: "length buf = ?es * (?P * ?n * ?g * ?T)" unfolding e by (rule size)
    from execute_swapped[OF es src dst o1 t l] show ?thesis unfolding e .
  qed
  have "execute (PermuteKernel p') ?mid =
      Inr (map (\<lambda>b. ?mid ! (swapped_position ?P ?n ?g ?T (b div ?es) * ?es + b mod ?es))
                [0..<?es * ?tot])"
  proof -
    have l: "length ?mid = ?es * (?P * ?g * ?n * ?T)" by simp
    show ?thesis by (rule execute_swapped[OF es' src' dst' o1' t l])
  qed
  also have "map (\<lambda>b. ?mid ! (swapped_position ?P ?n ?g ?T (b div ?es) * ?es + b mod ?es))
                [0..<?es * ?tot] = buf"
    by (rule gather_roundtrip[OF size]) (simp add: swapped_position_roundtrip)
  finally have run2: "execute (PermuteKernel p') ?mid = Inr buf" .
  have "ShuffleChannelsExecutor a = Inr \<lparr>permuteKernel = Some (PermuteKernel p)\<rparr>"
    "ShuffleChannelsExecutor ?a' = Inr \<lparr>permuteKernel = Some (PermuteKernel p')\<rparr>"
    by (simp_all add: ShuffleChannelsExecutor_def p p')
  moreover have "exec \<lparr>permuteKernel = Some (PermuteKernel p)\<rparr> buf (- 1) = Inr ?mid"
    "exec \<lparr>permuteKernel = Some (PermuteKernel p')\<rparr> ?mid (- 1) = Inr buf"
    by (simp_all add: exec_def run1 run2)
  ultimately show ?thesis by blast
qed

text \<open>
  The theorem at the planar bundle of shape \<open>[2, 6, 2]\<close> with group 2, whose inverse
  configuration has group 3, on the buffer of the bytes 0 to 23.
\<close>

theorem shuffle_then_inverse_restores_witness:
  "accepted planar_262 \<and> layoutType planar_262 = ncsp \<and>
   accepted (inverse_configuration planar_262) \<and>
   group (inverse_configuration planar_262) = 3 \<and>
   (\<exists>e e' mid. ShuffleChannelsExecutor planar_262 = Inr e \<and>
        ShuffleChannelsExecutor (inverse_configuration planar_262) = Inr e' \<and>
        exec e [0..<24] (- 1) = Inr mid \<and> exec e' mid (- 1) = Inr [0..<24])"
proof -
  have a: "accepted planar_262" "layoutType planar_262 = ncsp"
    "accepted (inverse_configuration planar_262)"
    "group (inverse_configuration planar_262) = 3"
    by (simp_all add: accepted_def well_formed_def isBlocked_def one_of_def
        inverse_configuration_def planar_262_def)
  have l: "length [0..<24] = dataSize planar_262 * prod_list (srcDims planar_262)"
    "dataSize planar_262 * prod_list (srcDims planar_262) < 2 ^ 64"
    by (simp_all add: planar_262_def)
  from shuffle_then_inverse_restores[OF a(1,2,3) l] a show ?thesis by simp
qed

text \<open>
  Claim C6.  The constructor returns a plan on every accepted bundle in one of the cases it
  is written for, and whenever it returns a plan, every index \<open>i\<close> below the working rank
  satisfies \<open>dst_block_dims[i] = src_block_dims[order[i]]\<close>, with \<open>order[i]\<close> below the
  working rank as well.
\<close>

theorem dst_block_dims_consistent:
  "(accepted a \<and> offered a \<longrightarrow> (\<exists>p. ShuffleChannelsExecutor_params a = Inr p)) \<and>
   (ShuffleChannelsExecutor_params a = Inr p \<and> i < nat (reshapedRank a) \<longrightarrow>
      length (dst_block_dims p) = nat (reshapedRank a) \<and>
      length (src_block_dims p) = nat (reshapedRank a) \<and>
      order p ! i < nat (reshapedRank a) \<and>
      dst_block_dims p ! i = src_block_dims p ! (order p ! i))"
proof (intro conjI impI)
  assume "accepted a \<and> offered a"
  then have "well_formed a" "offered a" by (simp_all add: accepted_def)
  from ShuffleChannelsExecutor_params_total[OF this]
  show "\<exists>p. ShuffleChannelsExecutor_params a = Inr p" by blast
next
  assume "ShuffleChannelsExecutor_params a = Inr p \<and> i < nat (reshapedRank a)"
  then have run: "ShuffleChannelsExecutor_params a = Inr p" and i: "i < nat (reshapedRank a)"
    by simp_all
  from ShuffleChannelsExecutor_params_shaped[OF run]
  show "length (dst_block_dims p) = nat (reshapedRank a)"
    "length (src_block_dims p) = nat (reshapedRank a)"
    by (simp_all add: shaped_def)
  show "order p ! i < nat (reshapedRank a)"
    using run i by (rule ShuffleChannelsExecutor_params_order_less)
  show "dst_block_dims p ! i = src_block_dims p ! (order p ! i)"
    using run i by (rule ShuffleChannelsExecutor_params_dst)
qed

text \<open>The theorem at the planar bundle of shape \<open>[1, 4, 2, 2]\<close> and index 1.\<close>

theorem dst_block_dims_consistent_witness:
  "accepted planar_1422 \<and> offered planar_1422 \<and>
   ShuffleChannelsExecutor_params planar_1422 = Inr planar_1422_plan \<and>
   order planar_1422_plan ! 1 = 2 \<and>
   dst_block_dims planar_1422_plan ! 1 = src_block_dims planar_1422_plan ! 2"
proof -
  have r: "(1::nat) < nat (reshapedRank planar_1422)"
    by (simp add: reshapedRank_def planar_1422_def one_of_def)
  have o: "order planar_1422_plan ! 1 = 2" by (simp add: planar_1422_plan_def)
  from dst_block_dims_consistent[of planar_1422 planar_1422_plan 1] planar_1422_run r
  have "dst_block_dims planar_1422_plan ! 1 = src_block_dims planar_1422_plan ! (order planar_1422_plan ! 1)"
    by simp
  with o planar_1422_accepted planar_1422_run show ?thesis by simp
qed

text \<open>
  Claim C7.  For every accepted channels-last bundle with an axis above 1 the constructor
  returns a plan in which the last reshaped position is a fixed point of the order and
  holds the channel extent \<open>srcDims[1]\<close>, and every logical axis \<open>i\<close> from 2 up to
  \<open>axis - 1\<close> sits one position lower, at \<open>i - 1\<close>, with its own extent.
\<close>

theorem channels_last_channel_axis_goes_last:
  assumes "accepted a" and "layoutType a = nspc" and "1 < axis a"
  shows "\<exists>p. ShuffleChannelsExecutor_params a = Inr p \<and>
              length (order p) = nat (reshapedRank a) \<and>
              order p ! (nat (reshapedRank a) - 1) = nat (reshapedRank a) - 1 \<and>
              src_block_dims p ! (nat (reshapedRank a) - 1) = srcDims a ! 1 \<and>
              (\<forall>i. 2 \<le> i \<and> i < nat (axis a) \<longrightarrow>
                 order p ! (i - 1) = i - 1 \<and> src_block_dims p ! (i - 1) = srcDims a ! i)"
proof -
  from assms(1) have wf: "well_formed a" by (simp add: accepted_def)
  then have ax: "axis a < dataRank a" and sr: "spatialRank a = dataRank a - axis a - 1"
    by (simp_all add: well_formed_def)
  have off: "offered a"
    using assms(2,3) ax by (simp add: offered_def isBlocked_def one_of_def)
  let ?n = "nat (reshapedRank a)"
  define d0 where "d0 = nat (axis a) - 1"
  have d0: "nat (axis a) = d0 + 1" "1 \<le> d0" using assms(3) by (simp_all add: d0_def)
  have nb: "\<not> isBlocked a" using assms(2) by (simp add: isBlocked_def one_of_def)
  have dp: "decomposed_at a = d0"
    using assms(2,3) nb d0 by (simp add: decomposed_at_def channelDim_def)
  have n: "?n = d0 + 3 \<or> ?n = d0 + 4"
    using assms(2,3) d0 by (auto simp: reshapedRank_def one_of_def)
  from ShuffleChannelsExecutor_params_total[OF wf off]
  obtain p where p: "ShuffleChannelsExecutor_params a = Inr p"
    and h: "holds p ?n (dataSize a) (swap_at d0) (src_extent a)"
    unfolding dp by blast
  have fs: "\<And>k. src_extent a k = (if k = 0 then srcDims a ! 0
            else if k < d0 then srcDims a ! (k + 1)
            else if k = d0 then group a
            else if k = d0 + 1 then groupSize a
            else if k = ?n - 1 then srcDims a ! 1
            else spatialShapeSize a)"
    using assms(2,3) nb d0 by (simp add: src_extent_def channelDim_def)
  have last: "order p ! (?n - 1) = ?n - 1 \<and> src_block_dims p ! (?n - 1) = srcDims a ! 1"
    using h n d0 by (auto simp: holds_def fs swap_at_def)
  have mid: "\<forall>i. 2 \<le> i \<and> i < nat (axis a) \<longrightarrow>
                 order p ! (i - 1) = i - 1 \<and> src_block_dims p ! (i - 1) = srcDims a ! i"
  proof (intro allI impI)
    fix i assume i: "2 \<le> i \<and> i < nat (axis a)"
    then have k: "i - 1 < ?n" "i - 1 \<noteq> 0" "i - 1 < d0" "i - 1 + 1 = i"
      using n d0 by auto
    from h k(1) have "order p ! (i - 1) = swap_at d0 (i - 1)"
      "src_block_dims p ! (i - 1) = src_extent a (i - 1)"
      by (simp_all add: holds_def)
    then show "order p ! (i - 1) = i - 1 \<and> src_block_dims p ! (i - 1) = srcDims a ! i"
      using k by (simp add: fs swap_at_def)
  qed
  from h have "length (order p) = ?n" by (simp add: holds_def shaped_def)
  with p last mid show ?thesis by blast
qed

text \<open>The theorem at a channels-last bundle of rank 5 shuffled along axis 3.\<close>

theorem channels_last_channel_axis_goes_last_witness:
  "accepted channels_last_spatial \<and> layoutType channels_last_spatial = nspc \<and>
   1 < axis channels_last_spatial \<and>
   ShuffleChannelsExecutor_params channels_last_spatial = Inr channels_last_spatial_plan \<and>
   order channels_last_spatial_plan ! 5 = 5 \<and> src_block_dims channels_last_spatial_plan ! 5 = 16 \<and>
   order channels_last_spatial_plan ! 1 = 1 \<and> src_block_dims channels_last_spatial_plan ! 1 = 2"
proof -
  have a: "accepted channels_last_spatial"
    by (simp add: accepted_def well_formed_def isBlocked_def one_of_def channels_last_spatial_def)
  have l: "layoutType channels_last_spatial = nspc" "1 < axis channels_last_spatial"
    by (simp_all add: channels_last_spatial_def)
  from channels_last_channel_axis_goes_last[OF a l] show ?thesis
    using a l channels_last_spatial_run
    by (simp add: channels_last_spatial_plan_def)
qed

text \<open>
  Claim C8.  Constructing the node with axis \<open>-1\<close> and rank 4 gives the normalised axis 3 and
  the same node state as constructing it with axis 3 and rank 4; hence, for every memory
  descriptor, \<^verbatim>\<open>prepareParams\<close> builds the same executor (or fails alike).
\<close>

theorem negative_axis_normalised:
  "axis (attrs (MKLDNNShuffleChannelsNode attrs0 g (- 1) 4)) = 3 \<and>
   MKLDNNShuffleChannelsNode attrs0 g (- 1) 4 = MKLDNNShuffleChannelsNode attrs0 g 3 4 \<and>
   prepareParams dims blocked_dims
       (createPrimitive es has (MKLDNNShuffleChannelsNode attrs0 g (- 1) 4)) =
   prepareParams dims blocked_dims
       (createPrimitive es has (MKLDNNShuffleChannelsNode attrs0 g 3 4))"
proof -
  have a: "attrs (MKLDNNShuffleChannelsNode attrs0 g (- 1) 4) =
           attrs (MKLDNNShuffleChannelsNode attrs0 g 3 4)"
    by (rule ShuffleChannelsAttributes.equality)
       (simp_all add: MKLDNNShuffleChannelsNode_def Let_def)
  have n: "MKLDNNShuffleChannelsNode attrs0 g (- 1) 4 = MKLDNNShuffleChannelsNode attrs0 g 3 4"
    by (rule Node.equality) (simp_all add: a, simp_all add: MKLDNNShuffleChannelsNode_def Let_def)
  have "axis (attrs (MKLDNNShuffleChannelsNode attrs0 g (- 1) 4)) = 3"
    by (simp add: MKLDNNShuffleChannelsNode_def Let_def)
  with n show ?thesis by simp
qed

text \<open>
  Claim C10.  On an executor that holds a kernel, \<^verbatim>\<open>exec\<close> passes the batch override to
  the kernel exactly when it is positive; with the override 0, as with a negative one, the
  kernel runs on the plan's own extents.
\<close>

theorem exec_batch_override:
  assumes "permuteKernel e = Some k"
  shows "exec e srcData MB = (if 0 < MB then execute_mb k srcData MB else execute k srcData) \<and>
         exec e srcData 0 = execute k srcData \<and>
         exec e srcData 0 = exec e srcData (- 1)"
  using assms by (simp add: exec_def)

text \<open>
  The theorem at the executor of the planar bundle and the override 0: the whole buffer is
  permuted, whereas the kernel called with the batch 0 would copy nothing.
\<close>

theorem exec_batch_override_witness:
  "permuteKernel planar_1422_executor = Some (PermuteKernel planar_1422_plan) \<and>
   exec planar_1422_executor [0..<64] 0 = execute (PermuteKernel planar_1422_plan) [0..<64] \<and>
   execute (PermuteKernel planar_1422_plan) [0..<64] =
     Inr ([0..<16] @ [32..<48] @ [16..<32] @ [48..<64]) \<and>
   execute_mb (PermuteKernel planar_1422_plan) [0..<64] 0 = Inr []"
proof -
  have k: "permuteKernel planar_1422_executor = Some (PermuteKernel planar_1422_plan)"
    by (simp add: planar_1422_executor_def)
  have "execute (PermuteKernel planar_1422_plan) [0..<64] =
     Inr ([0..<16] @ [32..<48] @ [16..<32] @ [48..<64])"
    unfolding planar_1422_plan_def by (simp add: exec_defs upt_numeral)
  moreover have "execute_mb (PermuteKernel planar_1422_plan) [0..<64] 0 = Inr []"
    unfolding planar_1422_plan_def by (simp add: exec_defs)
  ultimately show ?thesis using exec_batch_override[OF k, of "[0..<64]" 0] k by simp
qed

end
